theory Spec2Isabelle
  imports Complex_Main
begin

section \<open>Python values used by email-expirer.py\<close>

text \<open>
  Strings are byte lists holding the UTF-8 encoding of the Python string. The only
  non-ASCII character of the program is the hourglass U+231B of \<open>LABEL_PREFIX\<close> and
  of the age-label pattern; it is the three bytes E2 8C 9B. The program never counts
  characters, it only concatenates, compares and matches prefixes, and these agree on
  code points and on their UTF-8 bytes.
\<close>

definition hourglass :: string where
  "hourglass = [CHR 0xE2, CHR 0x8C, CHR 0x9B]"

definition digit_char :: "nat \<Rightarrow> char" where
  "digit_char n = ''0123456789'' ! n"

text \<open>\<open>str(n)\<close> and the \<open>{n}\<close> of an f-string, for an integer: decimal digits, a minus sign
  for a negative number. \<open>digit_char\<close> is only read below 10.\<close>

fun str_nat :: "nat \<Rightarrow> string" where
  "str_nat n = (if n < 10 then [digit_char n] else str_nat (n div 10) @ [digit_char (n mod 10)])"

declare str_nat.simps [simp del]

definition str_int :: "int \<Rightarrow> string" where
  "str_int i = (if i < 0 then CHR ''-'' # str_nat (nat (- i)) else str_nat (nat i))"

text \<open>
  \<open>round(x)\<close> of Python 3 on a float: the nearest integer, a tie going to the even
  neighbour. The quotient \<open>age / 31\<close> is taken in the reals: the double that Python
  computes is the correctly rounded quotient, which lies on the same side of every
  half-integer as the exact quotient for every day count a \<open>datetime\<close> difference can
  produce (below four million).
\<close>

definition py_round :: "real \<Rightarrow> int" where
  "py_round x =
     (let f = \<lfloor>x\<rfloor>; d = x - of_int f
      in if d < 1 / 2 then f else if 1 / 2 < d then f + 1 else if even f then f else f + 1)"


subsection \<open>Configuration constants\<close>

definition INBOX_DAYS :: nat where
  "INBOX_DAYS = 7"

definition LABEL_PREFIX :: string where
  "LABEL_PREFIX = hourglass @ ''/''"

definition MIN_AGE_TO_APPEND_LABEL :: int where
  "MIN_AGE_TO_APPEND_LABEL = 21"

definition PAGE_SIZE :: nat where
  "PAGE_SIZE = 100"

subsection \<open>Dates\<close>

text \<open>
  A \<open>datetime\<close> in UTC: the day number counted from 1970-01-01 and the microseconds
  into that day. \<open>fromtimestamp_ms\<close> is
  \<open>datetime.fromtimestamp(internal_date_ms / 1000.0, tz=timezone.utc)\<close>.
\<close>

record datetime =
  dt_day :: int
  dt_us :: int

definition us_per_day :: int where
  "us_per_day = 86400000000"

definition fromtimestamp_ms :: "int \<Rightarrow> datetime" where
  "fromtimestamp_ms ms = \<lparr>dt_day = ms div 86400000, dt_us = (ms mod 86400000) * 1000\<rparr>"

definition datetime_to_date :: "datetime \<Rightarrow> datetime" where
  "datetime_to_date d = \<lparr>dt_day = dt_day d, dt_us = 0\<rparr>"

text \<open>\<open>(a - b).days\<close>: the whole days of the difference, rounded towards minus infinity.\<close>

definition timedelta_days :: "datetime \<Rightarrow> datetime \<Rightarrow> int" where
  "timedelta_days a b =
     ((dt_day a * us_per_day + dt_us a) - (dt_day b * us_per_day + dt_us b)) div us_per_day"

definition date_diff_in_days :: "datetime \<Rightarrow> datetime \<Rightarrow> int" where
  "date_diff_in_days d1 d2 = timedelta_days (datetime_to_date d2) (datetime_to_date d1)"

subsection \<open>Age labels\<close>

text \<open>The name computed at the head of \<open>add_age_label\<close>.\<close>

definition age_string :: "int \<Rightarrow> string" where
  "age_string age =
     (if age < 31 then str_int age @ ''d''
      else if age < 365 then str_int (py_round (real_of_int age / 31)) @ ''m''
      else str_int (py_round (real_of_int age / 365)) @ ''y'')"


text \<open>
  \<open>re.compile(r"^H[ /]\d+").match(name)\<close>, with H the hourglass: the name starts with the hourglass,
  then a space or a slash, then at least one decimal digit. On a \<open>str\<close> pattern \<open>\d\<close>
  matches every Unicode decimal digit; the ASCII digits are tested here and the
  others are left to the parameter \<open>other_digit\<close>, which says whether the remaining
  bytes start with a non-ASCII decimal digit.
\<close>

definition starts_with_digit :: "(string \<Rightarrow> bool) \<Rightarrow> string \<Rightarrow> bool" where
  "starts_with_digit other_digit s =
     ((case s of [] \<Rightarrow> False | c # _ \<Rightarrow> c \<in> set ''0123456789'') \<or> other_digit s)"

fun age_label_re_match :: "(string \<Rightarrow> bool) \<Rightarrow> string \<Rightarrow> bool" where
  "age_label_re_match other_digit (a # b # c # sep # rest) =
     (a = CHR 0xE2 \<and> b = CHR 0x8C \<and> c = CHR 0x9B \<and> (sep = CHR '' '' \<or> sep = CHR ''/'')
      \<and> starts_with_digit other_digit rest)"
| "age_label_re_match other_digit _ = False"

section \<open>The remote mail store\<close>

text \<open>
  Modelled from the spec: the mail service that \<open>service.users()\<close> reaches. It is not
  part of the repository; the store below is the capability the program consumes from
  it, as the specification's section on external interfaces describes it: labels with a
  name and an opaque identifier (list, create, delete), threads with a set of attached
  label identifiers and their ordered messages (search by query in pages, get,
  modify), a query being a conjunction of inbox, star and label terms. Labels are kept
  per thread, as the program addresses them. Everything under "The program" is
  translated from \<open>email-expirer.py\<close>.
\<close>

datatype lid = INBOX | STARRED | UserLabel nat

record label =
  label_name :: string
  label_ident :: lid

text \<open>
  What \<open>.execute()\<close> can raise: the transport fails, or the service rejects the
  request (an unknown thread or label identifier, a label name that exists already).
  \<open>KeyError\<close> is Python's, for a dictionary read.
\<close>

datatype error = TransportError | HttpError | KeyError

text \<open>
  The search terms the program composes; a query is their conjunction, as the
  space-separated string that \<open>" ".join(filters)\<close> and the f-strings build:
  \<open>in:inbox\<close>, \<open>-in:inbox\<close>, \<open>-is:starred\<close>, \<open>label:NAME\<close>, \<open>-label:NAME\<close>.
\<close>

datatype qterm = In_inbox | Not_in_inbox | Not_starred | Has_label string | Not_label string

type_synonym query = "qterm list"

record response =
  resp_threads :: "nat list option"
  nextPageToken :: "string option"

text \<open>
  \<open>all_labels\<close> is what \<open>labels().list\<close> returns, \<open>thread_ids\<close> the existing threads in
  the order a search lists them, \<open>thread_messages\<close> the \<open>internalDate\<close> (milliseconds)
  of each message of a thread, oldest first. \<open>requests_left\<close> models transport
  failure: \<open>Some n\<close> means that \<open>n\<close> more requests are served and the next one
  raises; \<open>None\<close> means that the transport never fails.
\<close>

record mailbox =
  all_labels :: "label list"
  thread_ids :: "nat list"
  thread_labels :: "nat \<Rightarrow> lid set"
  thread_messages :: "nat \<Rightarrow> int list"
  requests_left :: "nat option"

text \<open>
  A computation against the store: \<open>None\<close> when it does not return, otherwise the
  value returned or the exception raised, and the store as it is left.
\<close>

type_synonym 'a io = "mailbox \<Rightarrow> ((error + 'a) \<times> mailbox) option"

definition io_return :: "'a \<Rightarrow> 'a io" where
  "io_return v mb = Some (Inr v, mb)"

definition io_raise :: "error \<Rightarrow> 'a io" where
  "io_raise e mb = Some (Inl e, mb)"

definition io_bind :: "'a io \<Rightarrow> ('a \<Rightarrow> 'b io) \<Rightarrow> 'b io" where
  "io_bind m f mb =
     (case m mb of
        None \<Rightarrow> None
      | Some (Inl e, mb') \<Rightarrow> Some (Inl e, mb')
      | Some (Inr v, mb') \<Rightarrow> f v mb')"

text \<open>A \<open>for\<close> loop over a list, and a comprehension whose elements are computed by calls.\<close>

fun for_each :: "'a list \<Rightarrow> ('a \<Rightarrow> unit io) \<Rightarrow> unit io" where
  "for_each [] body = io_return ()"
| "for_each (x # xs) body = io_bind (body x) (\<lambda>_. for_each xs body)"

fun io_map :: "('a \<Rightarrow> 'b io) \<Rightarrow> 'a list \<Rightarrow> 'b list io" where
  "io_map f [] = io_return []"
| "io_map f (x # xs) = io_bind (f x) (\<lambda>y. io_bind (io_map f xs) (\<lambda>ys. io_return (y # ys)))"

subsection \<open>Requests\<close>

definition execute :: "(mailbox \<Rightarrow> (error + 'a) \<times> mailbox) \<Rightarrow> 'a io" where
  "execute handler mb =
     (case requests_left mb of
        None \<Rightarrow> Some (handler mb)
      | Some 0 \<Rightarrow> Some (Inl TransportError, mb)
      | Some (Suc n) \<Rightarrow> Some (handler (mb\<lparr>requests_left := Some n\<rparr>)))"

definition labels_list :: "label list io" where
  "labels_list = execute (\<lambda>mb. (Inr (all_labels mb), mb))"

definition label_number :: "lid \<Rightarrow> nat" where
  "label_number l = (case l of UserLabel n \<Rightarrow> n | _ \<Rightarrow> 0)"

text \<open>The identifier given to a new label: one that no listed label has.\<close>

definition fresh_label_id :: "label list \<Rightarrow> lid" where
  "fresh_label_id ls = UserLabel (Suc (fold max (map (\<lambda>l. label_number (label_ident l)) ls) 0))"

definition labels_create :: "string \<Rightarrow> label io" where
  "labels_create name = execute (\<lambda>mb.
     if name \<in> set (map label_name (all_labels mb)) then (Inl HttpError, mb)
     else (let l = \<lparr>label_name = name, label_ident = fresh_label_id (all_labels mb)\<rparr>
           in (Inr l, mb\<lparr>all_labels := all_labels mb @ [l]\<rparr>)))"

text \<open>Deleting a label removes it from every thread it is applied to.\<close>

definition labels_delete :: "lid \<Rightarrow> unit io" where
  "labels_delete i = execute (\<lambda>mb.
     if i = INBOX \<or> i = STARRED \<or> i \<notin> set (map label_ident (all_labels mb)) then (Inl HttpError, mb)
     else (Inr (), mb\<lparr>all_labels := filter (\<lambda>l. label_ident l \<noteq> i) (all_labels mb),
                       thread_labels := (\<lambda>t. thread_labels mb t - {i})\<rparr>))"

text \<open>\<open>label:NAME\<close> finds the threads that carry a label of that name.\<close>

definition has_label_named :: "mailbox \<Rightarrow> nat \<Rightarrow> string \<Rightarrow> bool" where
  "has_label_named mb t name =
     (\<exists>l \<in> set (all_labels mb). label_name l = name \<and> label_ident l \<in> thread_labels mb t)"

fun matches :: "mailbox \<Rightarrow> nat \<Rightarrow> qterm \<Rightarrow> bool" where
  "matches mb t In_inbox = (INBOX \<in> thread_labels mb t)"
| "matches mb t Not_in_inbox = (INBOX \<notin> thread_labels mb t)"
| "matches mb t Not_starred = (STARRED \<notin> thread_labels mb t)"
| "matches mb t (Has_label name) = has_label_named mb t name"
| "matches mb t (Not_label name) = (\<not> has_label_named mb t name)"

definition search :: "mailbox \<Rightarrow> query \<Rightarrow> nat list" where
  "search mb q = filter (\<lambda>t. \<forall>x \<in> set q. matches mb t x) (thread_ids mb)"

text \<open>
  A page of a search. The continuation token is the offset of the next page, as an
  opaque string of that many characters; the \<open>threads\<close> key is absent from a response
  without results.
\<close>

definition page_of :: "nat list \<Rightarrow> nat \<Rightarrow> string option \<Rightarrow> response" where
  "page_of results max_results page_token =
     (let off = (case page_token of None \<Rightarrow> 0 | Some s \<Rightarrow> length s);
          page = take max_results (drop off results)
      in \<lparr>resp_threads = (if page = [] then None else Some page),
          nextPageToken = (if off + max_results < length results
                           then Some (replicate (off + max_results) CHR ''p'') else None)\<rparr>)"

definition threads_list :: "query \<Rightarrow> nat \<Rightarrow> string option \<Rightarrow> response io" where
  "threads_list q max_results page_token =
     execute (\<lambda>mb. (Inr (page_of (search mb q) max_results page_token), mb))"

definition threads_get :: "nat \<Rightarrow> int list io" where
  "threads_get t = execute (\<lambda>mb.
     if t \<in> set (thread_ids mb) then (Inr (thread_messages mb t), mb) else (Inl HttpError, mb))"

text \<open>
  \<open>threads().modify\<close> with \<open>addLabelIds\<close> and \<open>removeLabelIds\<close>. An identifier is
  \<open>None\<close> when \<open>get_label_id\<close> found no label; the service rejects it, as it rejects
  an identifier that no label has.
\<close>

definition valid_label_id :: "mailbox \<Rightarrow> lid option \<Rightarrow> bool" where
  "valid_label_id mb i =
     (case i of None \<Rightarrow> False
      | Some l \<Rightarrow> l = INBOX \<or> l = STARRED \<or> l \<in> set (map label_ident (all_labels mb)))"

fun present :: "'a option list \<Rightarrow> 'a list" where
  "present [] = []"
| "present (None # xs) = present xs"
| "present (Some x # xs) = x # present xs"

definition modified_labels :: "lid option list \<Rightarrow> lid option list \<Rightarrow> lid set \<Rightarrow> lid set" where
  "modified_labels addLabelIds removeLabelIds s =
     (s - set (present removeLabelIds)) \<union> set (present addLabelIds)"

definition threads_modify :: "nat \<Rightarrow> lid option list \<Rightarrow> lid option list \<Rightarrow> unit io" where
  "threads_modify t addLabelIds removeLabelIds = execute (\<lambda>mb.
     if t \<in> set (thread_ids mb) \<and> (\<forall>i \<in> set (addLabelIds @ removeLabelIds). valid_label_id mb i)
     then (Inr (), mb\<lparr>thread_labels :=
             (thread_labels mb)(t := modified_labels addLabelIds removeLabelIds (thread_labels mb t))\<rparr>)
     else (Inl HttpError, mb))"

section \<open>The program\<close>

subsection \<open>Label registry\<close>

definition get_label_id :: "string \<Rightarrow> lid option io" where
  "get_label_id name =
     io_bind labels_list (\<lambda>ls.
       io_return (map_option label_ident (find (\<lambda>l. label_name l = name) ls)))"

definition create_label_if_missing :: "string \<Rightarrow> unit io" where
  "create_label_if_missing name =
     io_bind (get_label_id name) (\<lambda>found.
       if found = None then io_bind (labels_create name) (\<lambda>_. io_return ())
       else io_return ())"

text \<open>The label name \<open>f"x{i}"\<close>.\<close>

definition x_name :: "nat \<Rightarrow> string" where
  "x_name i = ''x'' @ str_int (int i)"

text \<open>The command \<open>setup\<close> (the name is reserved in Isabelle).\<close>

definition setup_labels :: "unit io" where
  "setup_labels =
     io_bind (for_each [0..<INBOX_DAYS + 1] (\<lambda>i. create_label_if_missing (x_name i)))
       (\<lambda>_. create_label_if_missing ''auto-archived'')"

text \<open>The dictionary of \<open>day_labels\<close> is the list of its items, in insertion order.\<close>

definition day_labels :: "(nat \<times> lid option) list io" where
  "day_labels =
     io_map (\<lambda>i. io_bind (get_label_id (x_name i)) (\<lambda>l. io_return (i, l))) [0..<INBOX_DAYS + 1]"

definition dict_get :: "('k \<times> 'v) list \<Rightarrow> 'k \<Rightarrow> 'v io" where
  "dict_get d k = (case map_of d k of None \<Rightarrow> io_raise KeyError | Some v \<Rightarrow> io_return v)"

subsection \<open>Thread query gateway\<close>

text \<open>
  The \<open>while True\<close> loop of \<open>fetch_all_threads\<close>, over the call that lists one page.
  \<open>not page_token\<close> holds for \<open>None\<close> and for the empty string.
\<close>

partial_function (option) fetch_loop ::
  "(string option \<Rightarrow> 's \<Rightarrow> ((error + response) \<times> 's) option) \<Rightarrow> string option \<Rightarrow> nat list \<Rightarrow> 's
     \<Rightarrow> ((error + nat list) \<times> 's) option" where
  "fetch_loop list_page page_token threads s =
     (case list_page page_token s of
        None \<Rightarrow> None
      | Some (Inl e, s') \<Rightarrow> Some (Inl e, s')
      | Some (Inr response, s') \<Rightarrow>
          (let threads' = threads @ (case resp_threads response of None \<Rightarrow> [] | Some ts \<Rightarrow> ts);
               page_token' = nextPageToken response
           in if page_token' = None \<or> page_token' = Some []
              then Some (Inr threads', s')
              else fetch_loop list_page page_token' threads' s'))"

definition fetch_all_threads :: "query \<Rightarrow> nat list io" where
  "fetch_all_threads query = fetch_loop (threads_list query PAGE_SIZE) None []"

subsection \<open>Countdown state machine\<close>

definition add_inbox_expiration :: "unit io" where
  "add_inbox_expiration =
     io_bind (get_label_id (x_name INBOX_DAYS)) (\<lambda>label_id.
       let filters = [In_inbox, Not_starred] @ map (\<lambda>i. Not_label (x_name i)) [0..<INBOX_DAYS + 1]
       in io_bind (fetch_all_threads filters) (\<lambda>threads.
            for_each threads (\<lambda>thread. threads_modify thread [label_id] [])))"

definition strip_tags_on_archived_emails :: "unit io" where
  "strip_tags_on_archived_emails =
     io_bind day_labels (\<lambda>labels.
       for_each labels (\<lambda>(i, label_id).
         io_bind (fetch_all_threads [Not_in_inbox, Has_label (x_name i)]) (\<lambda>threads.
           for_each threads (\<lambda>thread. threads_modify thread [] [label_id]))))"

text \<open>The body of the loop over the buckets in \<open>step_expiration\<close>.\<close>

definition step_bucket :: "(nat \<times> lid option) list \<Rightarrow> lid option \<Rightarrow> nat \<Rightarrow> unit io" where
  "step_bucket labels auto_label i =
     io_bind (dict_get labels i) (\<lambda>label_id.
       io_bind (fetch_all_threads [Has_label (x_name i)]) (\<lambda>threads.
         if threads = [] then io_return ()
         else for_each threads (\<lambda>thread.
                if i = 0
                then io_bind (threads_modify thread [auto_label] [label_id])
                       (\<lambda>_. threads_modify thread [] [Some INBOX])
                else io_bind (dict_get labels (i - 1)) (\<lambda>previous.
                       threads_modify thread [previous] [label_id]))))"

definition step_expiration :: "unit io" where
  "step_expiration =
     io_bind day_labels (\<lambda>labels.
       io_bind (get_label_id ''auto-archived'') (\<lambda>auto_label.
         for_each [0..<INBOX_DAYS + 1] (step_bucket labels auto_label)))"

text \<open>
  The advance pass in the order the specification states, from bucket N down to
  bucket 0, with the loop body of the source; for comparison with \<open>step_expiration\<close>.
\<close>

definition step_expiration_descending :: "unit io" where
  "step_expiration_descending =
     io_bind day_labels (\<lambda>labels.
       io_bind (get_label_id ''auto-archived'') (\<lambda>auto_label.
         for_each (rev [0..<INBOX_DAYS + 1]) (step_bucket labels auto_label)))"

subsection \<open>Age annotator\<close>

definition get_all_labels :: "label list io" where
  "get_all_labels = labels_list"

definition remove_all_age_labels :: "(string \<Rightarrow> bool) \<Rightarrow> unit io" where
  "remove_all_age_labels other_digit =
     io_bind get_all_labels (\<lambda>ls.
       let matching_labels = filter (\<lambda>l. age_label_re_match other_digit (label_name l)) ls
       in for_each matching_labels (\<lambda>l. labels_delete (label_ident l)))"

definition get_or_create_label :: "string \<Rightarrow> lid io" where
  "get_or_create_label name =
     io_bind get_all_labels (\<lambda>ls.
       case find (\<lambda>l. label_name l = name) ls of
         Some l \<Rightarrow> io_return (label_ident l)
       | None \<Rightarrow> io_bind (labels_create name) (\<lambda>result. io_return (label_ident result)))"

definition add_age_label :: "nat \<Rightarrow> int \<Rightarrow> unit io" where
  "add_age_label thread_id age =
     (let label_name = LABEL_PREFIX @ age_string age
      in io_bind (get_or_create_label label_name) (\<lambda>label_id.
           threads_modify thread_id [Some label_id] []))"

text \<open>The body of the loop over the inbox threads in \<open>append_too_old_labels\<close>.\<close>

definition annotate_thread :: "datetime \<Rightarrow> nat \<Rightarrow> unit io" where
  "annotate_thread now thread =
     io_bind (threads_get thread) (\<lambda>messages.
       if messages = [] then io_return ()
       else (let internal_date_ms = last messages;
                 last_msg_date = fromtimestamp_ms internal_date_ms;
                 age = date_diff_in_days last_msg_date now
             in if MIN_AGE_TO_APPEND_LABEL \<le> age then add_age_label thread age
                else io_return ()))"

text \<open>\<open>now\<close> is the clock reading \<open>datetime.now(timezone.utc)\<close> of the run.\<close>

definition append_too_old_labels :: "(string \<Rightarrow> bool) \<Rightarrow> datetime \<Rightarrow> unit io" where
  "append_too_old_labels other_digit now =
     io_bind (remove_all_age_labels other_digit) (\<lambda>_.
       io_bind (fetch_all_threads [In_inbox]) (\<lambda>threads.
         for_each threads (annotate_thread now)))"

subsection \<open>What the store serves\<close>

text \<open>
  \<open>serves list_page tok s pages s_end\<close>: listing from the continuation token \<open>tok\<close> in
  state \<open>s\<close>, the store answers with the pages \<open>pages\<close>, one request each, every
  page but the last with a continuation token, and is left in state \<open>s_end\<close>.
\<close>

fun serves :: "(string option \<Rightarrow> 's \<Rightarrow> ((error + response) \<times> 's) option) \<Rightarrow> string option \<Rightarrow> 's
    \<Rightarrow> nat list list \<Rightarrow> 's \<Rightarrow> bool" where
  "serves list_page tok s [] s_end = False"
| "serves list_page tok s (p # ps) s_end =
     (case list_page tok s of
        Some (Inr r, s') \<Rightarrow>
          (case resp_threads r of None \<Rightarrow> [] | Some ts \<Rightarrow> ts) = p
          \<and> (if nextPageToken r = None \<or> nextPageToken r = Some [] then ps = [] \<and> s_end = s'
             else serves list_page (nextPageToken r) s' ps s_end)
      | _ \<Rightarrow> False)"

subsection \<open>Example stores\<close>

text \<open>Five inbox threads and no user label.\<close>

definition five_threads :: mailbox where
  "five_threads = \<lparr>all_labels = [], thread_ids = [1, 2, 3, 4, 5], thread_labels = (\<lambda>_. {INBOX}),
     thread_messages = (\<lambda>_. []), requests_left = None\<rparr>"

text \<open>
  The countdown labels as \<open>setup\<close> creates them, and three inbox threads: one in
  bucket 7, one in bucket 0 and a starred one outside the countdown.
\<close>

definition countdown_labels :: "label list" where
  "countdown_labels =
     [\<lparr>label_name = ''x0'', label_ident = UserLabel 0\<rparr>,
      \<lparr>label_name = ''x1'', label_ident = UserLabel 1\<rparr>,
      \<lparr>label_name = ''x2'', label_ident = UserLabel 2\<rparr>,
      \<lparr>label_name = ''x3'', label_ident = UserLabel 3\<rparr>,
      \<lparr>label_name = ''x4'', label_ident = UserLabel 4\<rparr>,
      \<lparr>label_name = ''x5'', label_ident = UserLabel 5\<rparr>,
      \<lparr>label_name = ''x6'', label_ident = UserLabel 6\<rparr>,
      \<lparr>label_name = ''x7'', label_ident = UserLabel 7\<rparr>,
      \<lparr>label_name = ''auto-archived'', label_ident = UserLabel 8\<rparr>]"

definition countdown_store :: mailbox where
  "countdown_store =
     \<lparr>all_labels = countdown_labels, thread_ids = [1, 2, 3],
      thread_labels = (\<lambda>_. {})(1 := {INBOX, UserLabel 7}, 2 := {INBOX, UserLabel 0},
                                 3 := {INBOX, STARRED}),
      thread_messages = (\<lambda>_. []), requests_left = None\<rparr>"

subsection \<open>Notions used to state the properties\<close>

text \<open>The identifier that \<open>get_label_id\<close> finds for a name in the listed labels.\<close>

definition find_label_id :: "mailbox \<Rightarrow> string \<Rightarrow> lid option" where
  "find_label_id mb name =
     map_option label_ident (find (\<lambda>l. label_name l = name) (all_labels mb))"

text \<open>
  A well-formed label list: no two labels share a name or an identifier, and the
  identifiers of the system labels appear under their own names only.
\<close>

definition registry_ok :: "mailbox \<Rightarrow> bool" where
  "registry_ok mb =
     (distinct (map label_name (all_labels mb)) \<and> distinct (map label_ident (all_labels mb))
      \<and> (\<forall>l \<in> set (all_labels mb).
            (label_ident l = INBOX \<longrightarrow> label_name l = ''INBOX'')
          \<and> (label_ident l = STARRED \<longrightarrow> label_name l = ''STARRED'')))"

text \<open>The labels that \<open>setup\<close> creates exist.\<close>

definition countdown_ready :: "mailbox \<Rightarrow> bool" where
  "countdown_ready mb =
     ((\<forall>i \<in> set [0..<INBOX_DAYS + 1]. find_label_id mb (x_name i) \<noteq> None)
      \<and> find_label_id mb ''auto-archived'' \<noteq> None)"

text \<open>The existing threads that hold bucket \<open>i\<close>, and those that hold the archived label.\<close>

definition in_bucket :: "mailbox \<Rightarrow> nat \<Rightarrow> nat set" where
  "in_bucket mb i = {t \<in> set (thread_ids mb). has_label_named mb t (x_name i)}"

definition in_archived :: "mailbox \<Rightarrow> nat set" where
  "in_archived mb = {t \<in> set (thread_ids mb). has_label_named mb t ''auto-archived''}"

text \<open>The numbers of the buckets a thread holds, and the countdown labels it holds.\<close>

definition buckets_held :: "mailbox \<Rightarrow> nat \<Rightarrow> nat list" where
  "buckets_held mb t = filter (\<lambda>i. has_label_named mb t (x_name i)) [0..<INBOX_DAYS + 1]"

definition countdown_labels_held :: "mailbox \<Rightarrow> nat \<Rightarrow> string list" where
  "countdown_labels_held mb t =
     filter (has_label_named mb t) (map x_name [0..<INBOX_DAYS + 1] @ [''auto-archived''])"

text \<open>
  What one advance does to the label set of a thread that holds bucket \<open>i\<close>, with
  \<open>L\<close> the identifiers of the buckets and \<open>A\<close> that of the archived label, and the
  simultaneous advance of all buckets, taken from the labels held before.
\<close>

definition advance_bucket :: "(nat \<Rightarrow> lid) \<Rightarrow> lid \<Rightarrow> nat \<Rightarrow> lid set \<Rightarrow> lid set" where
  "advance_bucket L A i S =
     (if L i \<in> S
      then (if i = 0 then ((S - {L 0}) \<union> {A}) - {INBOX} else (S - {L i}) \<union> {L (i - 1)})
      else S)"

definition advance_once :: "(nat \<Rightarrow> lid) \<Rightarrow> lid \<Rightarrow> lid set \<Rightarrow> lid set" where
  "advance_once L A S =
     ((S - set (map L [0..<INBOX_DAYS + 1])) - (if L 0 \<in> S then {INBOX} else {}))
     \<union> set (map L (filter (\<lambda>i. L (Suc i) \<in> S) [0..<INBOX_DAYS]))
     \<union> (if L 0 \<in> S then {A} else {})"

text \<open>The store with the label set of every existing thread replaced.\<close>

definition map_threads :: "(lid set \<Rightarrow> lid set) \<Rightarrow> mailbox \<Rightarrow> mailbox" where
  "map_threads g mb =
     mb\<lparr>thread_labels := (\<lambda>t. if t \<in> set (thread_ids mb) then g (thread_labels mb t)
                              else thread_labels mb t)\<rparr>"

text \<open>The store a command leaves behind, whether it returned or raised.\<close>

definition state_after :: "'a io \<Rightarrow> mailbox \<Rightarrow> mailbox" where
  "state_after command mb = (case command mb of None \<Rightarrow> mb | Some (_, mb') \<Rightarrow> mb')"

text \<open>\<open>L\<close> and \<open>A\<close> are the identifiers of the bucket labels and of the archived label.\<close>

definition countdown_ids :: "mailbox \<Rightarrow> (nat \<Rightarrow> lid) \<Rightarrow> lid \<Rightarrow> bool" where
  "countdown_ids mb L A =
     ((\<forall>i \<in> set [0..<INBOX_DAYS + 1]. find_label_id mb (x_name i) = Some (L i))
      \<and> find_label_id mb ''auto-archived'' = Some A)"

text \<open>The query of \<open>add_inbox_expiration\<close>.\<close>

definition admission_query :: query where
  "admission_query = [In_inbox, Not_starred] @ map (\<lambda>i. Not_label (x_name i)) [0..<INBOX_DAYS + 1]"

text \<open>Every thread holds at most one bucket label; at most one countdown label.\<close>

definition at_most_one_bucket :: "mailbox \<Rightarrow> bool" where
  "at_most_one_bucket mb = (\<forall>t \<in> set (thread_ids mb). length (buckets_held mb t) \<le> 1)"

definition at_most_one_countdown_label :: "mailbox \<Rightarrow> bool" where
  "at_most_one_countdown_label mb =
     (\<forall>t \<in> set (thread_ids mb). length (countdown_labels_held mb t) \<le> 1)"

text \<open>What \<open>strip_tags_on_archived_emails\<close> does to a label set for bucket \<open>i\<close>.\<close>

definition strip_bucket :: "(nat \<Rightarrow> lid) \<Rightarrow> nat \<Rightarrow> lid set \<Rightarrow> lid set" where
  "strip_bucket L i S = (if INBOX \<notin> S \<and> L i \<in> S then S - {L i} else S)"

text \<open>
  An inbox thread that carries the archived label and no bucket label, as a thread
  archived by an earlier advance pass that a new message has brought back.
\<close>

definition rearrived_store :: mailbox where
  "rearrived_store =
     \<lparr>all_labels = countdown_labels, thread_ids = [1],
      thread_labels = (\<lambda>_. {})(1 := {INBOX, UserLabel 8}),
      thread_messages = (\<lambda>_. []), requests_left = None\<rparr>"

text \<open>The two invariants on one label set, by identifiers.\<close>

definition one_bucket_in :: "(nat \<Rightarrow> lid) \<Rightarrow> lid set \<Rightarrow> bool" where
  "one_bucket_in L S = (\<forall>i \<le> INBOX_DAYS. \<forall>j \<le> INBOX_DAYS. L i \<in> S \<and> L j \<in> S \<longrightarrow> i = j)"

definition one_countdown_in :: "(nat \<Rightarrow> lid) \<Rightarrow> lid \<Rightarrow> lid set \<Rightarrow> bool" where
  "one_countdown_in L A S = (one_bucket_in L S \<and> (\<forall>i \<le> INBOX_DAYS. L i \<in> S \<longrightarrow> A \<notin> S))"

text \<open>
  The age of a thread as \<open>append_too_old_labels\<close> computes it, whether the pass labels
  the thread, and the name of the label it attaches.
\<close>

definition thread_age :: "mailbox \<Rightarrow> datetime \<Rightarrow> nat \<Rightarrow> int" where
  "thread_age mb now t = date_diff_in_days (fromtimestamp_ms (last (thread_messages mb t))) now"


definition age_label_name :: "mailbox \<Rightarrow> datetime \<Rightarrow> nat \<Rightarrow> string" where
  "age_label_name mb now t = LABEL_PREFIX @ age_string (thread_age mb now t)"



text \<open>That a run of a command attaches the label named \<open>name\<close> to thread \<open>t\<close>, and only it.\<close>

definition attaches :: "unit io \<Rightarrow> mailbox \<Rightarrow> nat \<Rightarrow> string \<Rightarrow> bool" where
  "attaches command mb t name =
     (case command mb of
        Some (Inr _, mb') \<Rightarrow>
          (case find (\<lambda>l. label_name l = name) (all_labels mb') of
             None \<Rightarrow> False
           | Some l \<Rightarrow> thread_labels mb' t = insert (label_ident l) (thread_labels mb t))
      | _ \<Rightarrow> False)"

text \<open>
  Six inbox threads whose last messages are 20, 21, 30, 31, 364 and 365 days older
  than the clock reading \<open>aged_now\<close> (day 20000 after 1970-01-01), and no label yet.
\<close>

definition aged_now :: datetime where
  "aged_now = \<lparr>dt_day = 20000, dt_us = 61000000\<rparr>"

definition aged_store :: mailbox where
  "aged_store =
     \<lparr>all_labels = [], thread_ids = [1, 2, 3, 4, 5, 6], thread_labels = (\<lambda>_. {INBOX}),
      thread_messages = (\<lambda>_. [])
        (1 := [1726272000000, 1726272000000 + 4000],
         2 := [1726185600000 + 86399999],
         3 := [1725408000000],
         4 := [1725321600000 + 1],
         5 := [1696550400000 + 50000000],
         6 := [1696464000000 + 7]),
      requests_left = None\<rparr>"

text \<open>The store after the sweep of the labels whose name matches the pattern.\<close>

definition swept :: "(string \<Rightarrow> bool) \<Rightarrow> mailbox \<Rightarrow> mailbox" where
  "swept other_digit mb =
     mb\<lparr>all_labels := filter (\<lambda>l. \<not> age_label_re_match other_digit (label_name l)) (all_labels mb),
        thread_labels := (\<lambda>t. thread_labels mb t
           - set (map label_ident
               (filter (\<lambda>l. age_label_re_match other_digit (label_name l)) (all_labels mb))))\<rparr>"

text \<open>
  The two elementary changes of the annotator: a label identifier attached to a
  thread, and a label of a new name added to the list.
\<close>

definition attach_label :: "mailbox \<Rightarrow> nat \<Rightarrow> lid \<Rightarrow> mailbox" where
  "attach_label m t i = m\<lparr>thread_labels := (thread_labels m)(t := insert i (thread_labels m t))\<rparr>"

definition add_label :: "mailbox \<Rightarrow> string \<Rightarrow> mailbox" where
  "add_label m n =
     m\<lparr>all_labels := all_labels m @ [\<lparr>label_name = n, label_ident = fresh_label_id (all_labels m)\<rparr>]\<rparr>"

text \<open>
  \<open>frame_of other_digit mb m\<close>: the store \<open>m\<close> has the threads and messages of \<open>mb\<close>,
  the labels of \<open>mb\<close> whose names do not match the age-label pattern, in the same
  order, and every thread holds the same of these labels and of the system labels.
\<close>

definition frame_of :: "(string \<Rightarrow> bool) \<Rightarrow> mailbox \<Rightarrow> mailbox \<Rightarrow> bool" where
  "frame_of other_digit mb m =
     (thread_ids m = thread_ids mb \<and> thread_messages m = thread_messages mb
      \<and> filter (\<lambda>l. \<not> age_label_re_match other_digit (label_name l)) (all_labels m)
        = filter (\<lambda>l. \<not> age_label_re_match other_digit (label_name l)) (all_labels mb)
      \<and> (\<forall>t. \<forall>l \<in> set (all_labels mb). \<not> age_label_re_match other_digit (label_name l) \<longrightarrow>
            (label_ident l \<in> thread_labels m t \<longleftrightarrow> label_ident l \<in> thread_labels mb t))
      \<and> (\<forall>t. (INBOX \<in> thread_labels m t \<longleftrightarrow> INBOX \<in> thread_labels mb t)
            \<and> (STARRED \<in> thread_labels m t \<longleftrightarrow> STARRED \<in> thread_labels mb t)))"

text \<open>
  The labels of a given name are the same in two stores, and the same threads hold a
  label of that name.
\<close>

definition label_unchanged :: "mailbox \<Rightarrow> mailbox \<Rightarrow> string \<Rightarrow> bool" where
  "label_unchanged mb mb' n =
     (filter (\<lambda>l. label_name l = n) (all_labels mb') = filter (\<lambda>l. label_name l = n) (all_labels mb)
      \<and> (\<forall>t. has_label_named mb' t n \<longleftrightarrow> has_label_named mb t n))"


text \<open>
  The store \<open>countdown_store\<close> on a transport that serves eleven more requests: the
  nine label lookups of \<open>step_expiration\<close>, the search for bucket 0 and one
  modification.
\<close>

definition failing_store :: mailbox where
  "failing_store = countdown_store\<lparr>requests_left := Some 11\<rparr>"

section \<open>Properties\<close>

subsection \<open>Requests on a transport that does not fail\<close>

lemma fetch_loop_serves:
  "serves list_page tok s pages s_end \<Longrightarrow>
   fetch_loop list_page tok acc s = Some (Inr (acc @ concat pages), s_end)"
proof (induction pages arbitrary: tok s acc)
  case Nil
  then show ?case by simp
next
  case (Cons p ps)
  then show ?case
    by (subst fetch_loop.simps) (auto split: option.splits sum.splits prod.splits if_splits simp: Let_def)
qed

lemma execute_ok: "requests_left mb = None \<Longrightarrow> execute h mb = Some (h mb)"
  by (simp add: execute_def)

lemma fetch_loop_store:
  assumes nf: "requests_left mb = None" and k: "0 < k"
  shows "tok = (if off = 0 then None else Some (replicate off CHR ''p'')) \<Longrightarrow>
    fetch_loop (threads_list q k) tok acc mb = Some (Inr (acc @ drop off (search mb q)), mb)"
proof (induction "length (search mb q) - off" arbitrary: off tok acc rule: less_induct)
  case less
  let ?rs = "search mb q"
  have dec: "(case tok of None \<Rightarrow> 0 | Some s \<Rightarrow> length s) = off"
    using less.prems by simp
  have tl: "threads_list q k tok mb = Some (Inr (page_of ?rs k tok), mb)"
    by (simp add: threads_list_def execute_ok[OF nf])
  show ?case
  proof (cases "off + k < length ?rs")
    case True
    have next_tok: "nextPageToken (page_of ?rs k tok) = Some (replicate (off + k) CHR ''p'')"
      using True dec by (simp add: page_of_def Let_def)
    have pg: "(case resp_threads (page_of ?rs k tok) of None \<Rightarrow> [] | Some ts \<Rightarrow> ts) = take k (drop off ?rs)"
      using dec by (simp add: page_of_def Let_def)
    have ne: "replicate (off + k) CHR ''p'' \<noteq> []" using k by simp
    have ih: "fetch_loop (threads_list q k) (Some (replicate (off + k) CHR ''p'')) (acc @ take k (drop off ?rs)) mb
        = Some (Inr ((acc @ take k (drop off ?rs)) @ drop (off + k) ?rs), mb)"
      using True k by (intro less.hyps) auto
    have "take k (drop off ?rs) @ drop (off + k) ?rs = drop off ?rs"
      by (metis add.commute append_take_drop_id drop_drop)
    then show ?thesis
      by (subst fetch_loop.simps) (use k in \<open>simp add: tl next_tok pg ne ih Let_def\<close>)
  next
    case False
    have next_tok: "nextPageToken (page_of ?rs k tok) = None"
      using False dec by (simp add: page_of_def Let_def)
    have pg: "(case resp_threads (page_of ?rs k tok) of None \<Rightarrow> [] | Some ts \<Rightarrow> ts) = drop off ?rs"
      using dec False by (simp add: page_of_def Let_def)
    show ?thesis
      by (subst fetch_loop.simps) (simp add: tl next_tok pg Let_def)
  qed
qed

lemma fetch_all_threads_ok:
  "requests_left mb = None \<Longrightarrow> fetch_all_threads q mb = Some (Inr (search mb q), mb)"
  unfolding fetch_all_threads_def
  using fetch_loop_store[of mb PAGE_SIZE None 0 q "[]"] by (simp add: PAGE_SIZE_def)

subsection \<open>Pagination\<close>

text \<open>
  C7. Pagination correctness. Whatever pages the store serves for a query (any number
  of them, of any sizes), following the continuation token from the first request
  until a response carries none, \<open>fetch_all_threads\<close>' loop returns and its result is
  exactly the concatenation of the pages in the order received, so nothing is omitted
  and nothing is duplicated that the pages do not duplicate. On the mail store the
  result is the full result list of the search for every positive page size, and so
  for \<open>PAGE_SIZE\<close>.
\<close>

theorem fetch_all_threads_pagination:
  "(serves list_page None s pages s_end \<longrightarrow>
      fetch_loop list_page None [] s = Some (Inr (concat pages), s_end))
   \<and> (requests_left mb = None \<and> 0 < page_size \<longrightarrow>
      fetch_loop (threads_list q page_size) None [] mb = Some (Inr (search mb q), mb))
   \<and> (requests_left mb = None \<longrightarrow> fetch_all_threads q mb = Some (Inr (search mb q), mb))"
proof (intro conjI impI)
  assume "serves list_page None s pages s_end"
  from fetch_loop_serves[OF this, of "[]"]
  show "fetch_loop list_page None [] s = Some (Inr (concat pages), s_end)" by simp
next
  assume "requests_left mb = None \<and> 0 < page_size"
  then show "fetch_loop (threads_list q page_size) None [] mb = Some (Inr (search mb q), mb)"
    using fetch_loop_store[of mb page_size None 0 q "[]"] by simp
next
  assume "requests_left mb = None"
  then show "fetch_all_threads q mb = Some (Inr (search mb q), mb)"
    by (rule fetch_all_threads_ok)
qed

theorem fetch_all_threads_pagination_witness:
  "serves (threads_list [In_inbox] 2) None five_threads [[1, 2], [3, 4], [5]] five_threads
   \<and> requests_left five_threads = None \<and> (0::nat) < 2
   \<and> fetch_loop (threads_list [In_inbox] 2) None [] five_threads
       = Some (Inr (concat [[1, 2], [3, 4], [5]]), five_threads)
   \<and> fetch_loop (threads_list [In_inbox] 2) None [] five_threads
       = Some (Inr (search five_threads [In_inbox]), five_threads)
   \<and> fetch_all_threads [In_inbox] five_threads = Some (Inr (search five_threads [In_inbox]), five_threads)"
proof -
  have h1: "serves (threads_list [In_inbox] 2) None five_threads [[1, 2], [3, 4], [5]] five_threads"
    by (simp add: threads_list_def execute_def five_threads_def page_of_def search_def Let_def)
  have h2: "requests_left five_threads = None"
    by (simp add: five_threads_def)
  have h3: "(0::nat) < 2" by simp
  from fetch_all_threads_pagination[of "threads_list [In_inbox] 2" five_threads
      "[[1, 2], [3, 4], [5]]" five_threads five_threads 2 "[In_inbox]"] h1 h2 h3
  show ?thesis by blast
qed

subsection \<open>Age classification\<close>







subsection \<open>The calls of the program on a transport that does not fail\<close>

lemma io_bind_ok: "m mb = Some (Inr v, mb') \<Longrightarrow> io_bind m f mb = f v mb'"
  by (simp add: io_bind_def)

lemma io_bind_raise: "m mb = Some (Inl e, mb') \<Longrightarrow> io_bind m f mb = Some (Inl e, mb')"
  by (simp add: io_bind_def)

lemma labels_list_ok:
  "requests_left mb = None \<Longrightarrow> labels_list mb = Some (Inr (all_labels mb), mb)"
  by (simp add: labels_list_def execute_ok)

lemma get_label_id_ok:
  "requests_left mb = None \<Longrightarrow> get_label_id name mb = Some (Inr (find_label_id mb name), mb)"
  by (simp add: get_label_id_def io_bind_def labels_list_ok io_return_def find_label_id_def)

lemma threads_get_ok:
  "requests_left mb = None \<Longrightarrow> t \<in> set (thread_ids mb) \<Longrightarrow>
   threads_get t mb = Some (Inr (thread_messages mb t), mb)"
  by (simp add: threads_get_def execute_ok)

lemma threads_modify_ok:
  "requests_left mb = None \<Longrightarrow> t \<in> set (thread_ids mb) \<Longrightarrow>
   \<forall>i \<in> set (adds @ rems). valid_label_id mb i \<Longrightarrow>
   threads_modify t adds rems mb =
     Some (Inr (), mb\<lparr>thread_labels := (thread_labels mb)(t := modified_labels adds rems (thread_labels mb t))\<rparr>)"
  by (simp add: threads_modify_def execute_ok)


lemma io_map_pure:
  "(\<And>x. x \<in> set xs \<Longrightarrow> f x mb = Some (Inr (g x), mb)) \<Longrightarrow>
   io_map f xs mb = Some (Inr (map g xs), mb)"
  by (induction xs) (simp_all add: io_return_def io_bind_def)

lemma day_labels_ok:
  "requests_left mb = None \<Longrightarrow>
   day_labels mb = Some (Inr (map (\<lambda>i. (i, find_label_id mb (x_name i))) [0..<INBOX_DAYS + 1]), mb)"
  unfolding day_labels_def
  by (rule io_map_pure) (simp add: io_bind_def get_label_id_ok io_return_def)

lemma map_of_tabulate:
  "map_of (map (\<lambda>i. (i, f i)) xs) k = (if k \<in> set xs then Some (f k) else None)"
  by (induction xs) auto

lemma dict_get_day_labels:
  "i \<le> INBOX_DAYS \<Longrightarrow>
   dict_get (map (\<lambda>i. (i, find_label_id mb0 (x_name i))) [0..<INBOX_DAYS + 1]) i
     = io_return (find_label_id mb0 (x_name i))"
  unfolding dict_get_def map_of_tabulate by simp

text \<open>A loop whose body rewrites the labels of its own thread only.\<close>

lemma for_each_update:
  assumes body: "\<And>t mb. P mb \<Longrightarrow> t \<in> set ts \<Longrightarrow>
      body t mb = Some (Inr (), mb\<lparr>thread_labels := (thread_labels mb)(t := g (thread_labels mb t))\<rparr>)"
    and stable: "\<And>mb f. P mb \<Longrightarrow> P (mb\<lparr>thread_labels := f\<rparr>)"
    and idem: "\<And>S. g (g S) = g S"
    and P: "P mb"
  shows "for_each ts body mb =
    Some (Inr (), mb\<lparr>thread_labels := (\<lambda>t. if t \<in> set ts then g (thread_labels mb t) else thread_labels mb t)\<rparr>)"
  using body P
proof (induction ts arbitrary: mb)
  case Nil
  then show ?case by (simp add: io_return_def)
next
  case (Cons a ts)
  let ?mb1 = "mb\<lparr>thread_labels := (thread_labels mb)(a := g (thread_labels mb a))\<rparr>"
  have b: "body a mb = Some (Inr (), ?mb1)" by (rule Cons.prems(1)) (use Cons.prems(2) in simp_all)
  have P1: "P ?mb1" using Cons.prems stable by simp
  have ih: "for_each ts body ?mb1 =
    Some (Inr (), ?mb1\<lparr>thread_labels := (\<lambda>t. if t \<in> set ts then g (thread_labels ?mb1 t) else thread_labels ?mb1 t)\<rparr>)"
    using Cons.prems P1 by (intro Cons.IH) auto
  have "(\<lambda>t. if t \<in> set ts then g (thread_labels ?mb1 t) else thread_labels ?mb1 t)
      = (\<lambda>t. if t \<in> set (a # ts) then g (thread_labels mb t) else thread_labels mb t)"
    by (auto simp: fun_eq_iff idem)
  then show ?case
    by (simp add: io_bind_def b ih)
qed

subsection \<open>The label list\<close>

lemma find_label_id_Some:
  "find_label_id mb n = Some a \<Longrightarrow>
   \<exists>l \<in> set (all_labels mb). label_name l = n \<and> label_ident l = a"
  by (auto simp: find_label_id_def find_Some_iff)

lemma find_label_id_None:
  "find_label_id mb n = None \<longleftrightarrow> n \<notin> set (map label_name (all_labels mb))"
  by (auto simp: find_label_id_def find_None_iff)

lemma find_label_id_thread_labels [simp]:
  "find_label_id (mb\<lparr>thread_labels := f\<rparr>) n = find_label_id mb n"
  by (simp add: find_label_id_def)

lemma registry_same_name:
  "registry_ok mb \<Longrightarrow> l \<in> set (all_labels mb) \<Longrightarrow> l' \<in> set (all_labels mb) \<Longrightarrow>
   label_name l = label_name l' \<Longrightarrow> l = l'"
  by (auto simp: registry_ok_def distinct_map dest: inj_onD)

lemma registry_same_ident:
  "registry_ok mb \<Longrightarrow> l \<in> set (all_labels mb) \<Longrightarrow> l' \<in> set (all_labels mb) \<Longrightarrow>
   label_ident l = label_ident l' \<Longrightarrow> l = l'"
  by (auto simp: registry_ok_def distinct_map dest: inj_onD)

lemma has_label_named_iff:
  assumes "registry_ok mb" "find_label_id mb n = Some a"
  shows "has_label_named mb t n \<longleftrightarrow> a \<in> thread_labels mb t"
proof -
  from find_label_id_Some[OF assms(2)] obtain l where
    l: "l \<in> set (all_labels mb)" "label_name l = n" "label_ident l = a" by blast
  show ?thesis
  proof
    assume "has_label_named mb t n"
    then obtain l' where l': "l' \<in> set (all_labels mb)" "label_name l' = n"
        "label_ident l' \<in> thread_labels mb t"
      by (auto simp: has_label_named_def)
    with l registry_same_name[OF assms(1), of l l'] show "a \<in> thread_labels mb t" by auto
  next
    assume "a \<in> thread_labels mb t"
    with l show "has_label_named mb t n" by (auto simp: has_label_named_def)
  qed
qed

lemma has_label_named_found:
  "find_label_id mb n = Some a \<Longrightarrow> a \<in> thread_labels mb t \<Longrightarrow> has_label_named mb t n"
  by (auto simp: has_label_named_def dest: find_label_id_Some)

lemma has_label_named_missing:
  "find_label_id mb n = None \<Longrightarrow> \<not> has_label_named mb t n"
  by (auto simp: has_label_named_def find_label_id_None)

lemma idents_differ:
  assumes "registry_ok mb" "find_label_id mb n = Some a" "find_label_id mb n' = Some a'" "n \<noteq> n'"
  shows "a \<noteq> a'"
proof
  assume "a = a'"
  from find_label_id_Some[OF assms(2)] find_label_id_Some[OF assms(3)] obtain l l' where
    "l \<in> set (all_labels mb)" "label_name l = n" "label_ident l = a"
    "l' \<in> set (all_labels mb)" "label_name l' = n'" "label_ident l' = a'" by blast
  with \<open>a = a'\<close> registry_same_ident[OF assms(1), of l l'] assms(4) show False by auto
qed

lemma ident_not_system:
  assumes "registry_ok mb" "find_label_id mb n = Some a" "n \<noteq> ''INBOX''" "n \<noteq> ''STARRED''"
  shows "a \<noteq> INBOX \<and> a \<noteq> STARRED"
  using find_label_id_Some[OF assms(2)] assms(1,3,4) by (auto simp: registry_ok_def)

lemma found_is_valid: "find_label_id mb n = Some a \<Longrightarrow> valid_label_id mb (Some a)"
  by (auto simp: valid_label_id_def dest: find_label_id_Some)

subsection \<open>Bucket label names\<close>

lemma x_name_digit: "i < 10 \<Longrightarrow> x_name i = [CHR ''x'', digit_char i]"
  by (simp add: x_name_def str_int_def str_nat.simps)

lemma digit_char_inj: "i < 10 \<Longrightarrow> j < 10 \<Longrightarrow> digit_char i = digit_char j \<longleftrightarrow> i = j"
  unfolding digit_char_def by (rule nth_eq_iff_index_eq) simp_all

lemma x_name_inj: "i \<le> INBOX_DAYS \<Longrightarrow> j \<le> INBOX_DAYS \<Longrightarrow> x_name i = x_name j \<longleftrightarrow> i = j"
  by (simp add: INBOX_DAYS_def x_name_digit digit_char_inj)

lemma x_name_not_other [simp]:
  "x_name i \<noteq> ''auto-archived''" "x_name i \<noteq> ''INBOX''" "x_name i \<noteq> ''STARRED''"
  by (simp_all add: x_name_def)

subsection \<open>The identifiers of the countdown labels\<close>

lemma countdown_ids_exist:
  "countdown_ready mb \<Longrightarrow>
   countdown_ids mb (\<lambda>i. the (find_label_id mb (x_name i))) (the (find_label_id mb ''auto-archived''))"
  by (auto simp: countdown_ready_def countdown_ids_def)

lemma countdown_ids_bucket:
  "countdown_ids mb L A \<Longrightarrow> i \<le> INBOX_DAYS \<Longrightarrow> find_label_id mb (x_name i) = Some (L i)"
  unfolding countdown_ids_def set_upt by auto

lemma countdown_ids_archived:
  "countdown_ids mb L A \<Longrightarrow> find_label_id mb ''auto-archived'' = Some A"
  by (simp add: countdown_ids_def)

lemma countdown_ids_thread_labels [simp]:
  "countdown_ids (mb\<lparr>thread_labels := f\<rparr>) L A = countdown_ids mb L A"
  by (simp add: countdown_ids_def)

lemma registry_ok_thread_labels [simp]:
  "registry_ok (mb\<lparr>thread_labels := f\<rparr>) = registry_ok mb"
  by (simp add: registry_ok_def)

lemma valid_label_id_thread_labels [simp]:
  "valid_label_id (mb\<lparr>thread_labels := f\<rparr>) i = valid_label_id mb i"
  by (simp add: valid_label_id_def split: option.splits)

lemma bucket_ids_distinct:
  assumes "registry_ok mb" "countdown_ids mb L A" "i \<le> INBOX_DAYS" "j \<le> INBOX_DAYS"
  shows "L i = L j \<longleftrightarrow> i = j"
proof
  assume "L i = L j"
  show "i = j"
  proof (rule ccontr)
    assume "i \<noteq> j"
    then have "x_name i \<noteq> x_name j" using assms(3,4) by (simp add: x_name_inj)
    from idents_differ[OF assms(1) countdown_ids_bucket[OF assms(2,3)]
        countdown_ids_bucket[OF assms(2,4)] this] \<open>L i = L j\<close>
    show False by simp
  qed
qed simp

lemma bucket_ids_other:
  assumes "registry_ok mb" "countdown_ids mb L A" "i \<le> INBOX_DAYS"
  shows "L i \<noteq> A" "L i \<noteq> INBOX" "L i \<noteq> STARRED" "A \<noteq> INBOX" "A \<noteq> STARRED"
proof -
  show "L i \<noteq> A"
    using idents_differ[OF assms(1) countdown_ids_bucket[OF assms(2,3)]
        countdown_ids_archived[OF assms(2)]] by simp
  show "L i \<noteq> INBOX" "L i \<noteq> STARRED"
    using ident_not_system[OF assms(1) countdown_ids_bucket[OF assms(2,3)]] by simp_all
  show "A \<noteq> INBOX" "A \<noteq> STARRED"
    using ident_not_system[OF assms(1) countdown_ids_archived[OF assms(2)]] by simp_all
qed

lemma search_has_label:
  assumes "registry_ok mb" "find_label_id mb n = Some a"
  shows "search mb [Has_label n] = filter (\<lambda>t. a \<in> thread_labels mb t) (thread_ids mb)"
  by (simp add: search_def has_label_named_iff[OF assms])

lemma map_threads_filter:
  "mb\<lparr>thread_labels := (\<lambda>t. if t \<in> set (filter (\<lambda>t. a \<in> thread_labels mb t) (thread_ids mb))
        then g (thread_labels mb t) else thread_labels mb t)\<rparr>
   = map_threads (\<lambda>S. if a \<in> S then g S else S) mb"
proof -
  have "(\<lambda>t. if t \<in> set (filter (\<lambda>t. a \<in> thread_labels mb t) (thread_ids mb))
        then g (thread_labels mb t) else thread_labels mb t)
      = (\<lambda>t. if t \<in> set (thread_ids mb) then (if a \<in> thread_labels mb t then g (thread_labels mb t)
           else thread_labels mb t) else thread_labels mb t)"
    by (auto simp: fun_eq_iff)
  then show ?thesis by (simp add: map_threads_def)
qed

lemma map_threads_id: "(\<And>t. t \<in> set (thread_ids mb) \<Longrightarrow> g (thread_labels mb t) = thread_labels mb t) \<Longrightarrow>
  map_threads g mb = mb"
proof -
  assume a: "\<And>t. t \<in> set (thread_ids mb) \<Longrightarrow> g (thread_labels mb t) = thread_labels mb t"
  have "(\<lambda>t. if t \<in> set (thread_ids mb) then g (thread_labels mb t) else thread_labels mb t)
    = thread_labels mb" using a by (auto simp: fun_eq_iff)
  then show ?thesis by (simp add: map_threads_def)
qed

text \<open>One bucket of the advance pass.\<close>

lemma step_bucket_ok:
  assumes nf: "requests_left mb = None" and reg: "registry_ok mb"
    and ids: "countdown_ids mb L A" and i: "i \<le> INBOX_DAYS"
    and labels: "labels = map (\<lambda>i. (i, Some (L i))) [0..<INBOX_DAYS + 1]"
  shows "step_bucket labels (Some A) i mb = Some (Inr (), map_threads (advance_bucket L A i) mb)"
proof -
  let ?ts = "filter (\<lambda>t. L i \<in> thread_labels mb t) (thread_ids mb)"
  let ?P = "\<lambda>m. requests_left m = None \<and> all_labels m = all_labels mb \<and> thread_ids m = thread_ids mb"
  let ?g = "\<lambda>S. if i = 0 then ((S - {L 0}) \<union> {A}) - {INBOX} else (S - {L i}) \<union> {L (i - 1)}"
  let ?body = "\<lambda>thread. if i = 0
                then io_bind (threads_modify thread [Some A] [Some (L i)])
                       (\<lambda>_. threads_modify thread [] [Some INBOX])
                else io_bind (dict_get labels (i - 1)) (\<lambda>previous.
                       threads_modify thread [previous] [Some (L i)])"
  have dg: "\<And>k. k \<le> INBOX_DAYS \<Longrightarrow> dict_get labels k = io_return (Some (L k))"
    unfolding labels dict_get_def map_of_tabulate by simp
  have fetch: "fetch_all_threads [Has_label (x_name i)] mb = Some (Inr ?ts, mb)"
    by (simp add: fetch_all_threads_ok[OF nf] search_has_label[OF reg countdown_ids_bucket[OF ids i]])
  have valid: "\<And>(m::mailbox) k. all_labels m = all_labels mb \<Longrightarrow> k \<le> INBOX_DAYS \<Longrightarrow> valid_label_id m (Some (L k))"
    using found_is_valid[OF countdown_ids_bucket[OF ids]] by (simp add: valid_label_id_def)
  have validA: "\<And>m::mailbox. all_labels m = all_labels mb \<Longrightarrow> valid_label_id m (Some A)"
    using found_is_valid[OF countdown_ids_archived[OF ids]] by (simp add: valid_label_id_def)
  have body: "\<And>t (m::mailbox). ?P m \<Longrightarrow> t \<in> set ?ts \<Longrightarrow>
      ?body t m = Some (Inr (), m\<lparr>thread_labels := (thread_labels m)(t := ?g (thread_labels m t))\<rparr>)"
  proof -
    fix t and m :: mailbox assume P: "?P m" and t: "t \<in> set ?ts"
    then have tm: "t \<in> set (thread_ids m)" by simp
    show "?body t m = Some (Inr (), m\<lparr>thread_labels := (thread_labels m)(t := ?g (thread_labels m t))\<rparr>)"
    proof (cases "i = 0")
      case True
      have 1: "threads_modify t [Some A] [Some (L 0)] m
          = Some (Inr (), m\<lparr>thread_labels := (thread_labels m)(t := (thread_labels m t - {L 0}) \<union> {A})\<rparr>)"
        using P tm valid[of m 0] validA[of m]
        by (subst threads_modify_ok) (auto simp: modified_labels_def)
      let ?m1 = "m\<lparr>thread_labels := (thread_labels m)(t := (thread_labels m t - {L 0}) \<union> {A})\<rparr>"
      have 2: "threads_modify t [] [Some INBOX] ?m1
          = Some (Inr (), ?m1\<lparr>thread_labels := (thread_labels ?m1)(t := thread_labels ?m1 t - {INBOX})\<rparr>)"
        using P tm by (subst threads_modify_ok) (auto simp: modified_labels_def valid_label_id_def)
      show ?thesis using True 1 2 by (simp add: io_bind_def)
    next
      case False
      have "threads_modify t [Some (L (i - 1))] [Some (L i)] m
          = Some (Inr (), m\<lparr>thread_labels := (thread_labels m)(t := (thread_labels m t - {L i}) \<union> {L (i - 1)})\<rparr>)"
        using P tm valid[of m i] valid[of m "i - 1"] i
        by (subst threads_modify_ok) (auto simp: modified_labels_def)
      then show ?thesis using False i by (simp add: io_bind_def dg io_return_def)
    qed
  qed
  have loop: "for_each ?ts ?body mb =
      Some (Inr (), mb\<lparr>thread_labels := (\<lambda>t. if t \<in> set ?ts then ?g (thread_labels mb t) else thread_labels mb t)\<rparr>)"
    by (rule for_each_update[where P = ?P, OF body]) (use nf in auto)
  have "(\<lambda>t. if t \<in> set ?ts then ?g (thread_labels mb t) else thread_labels mb t)
      = (\<lambda>t. if t \<in> set (thread_ids mb) then advance_bucket L A i (thread_labels mb t)
           else thread_labels mb t)"
    by (auto simp: advance_bucket_def fun_eq_iff)
  then have result: "mb\<lparr>thread_labels := (\<lambda>t. if t \<in> set ?ts then ?g (thread_labels mb t) else thread_labels mb t)\<rparr>
      = map_threads (advance_bucket L A i) mb"
    by (simp only: map_threads_def)
  have empty: "?ts = [] \<Longrightarrow> map_threads (advance_bucket L A i) mb = mb"
    by (rule map_threads_id) (auto simp: advance_bucket_def filter_empty_conv)
  show ?thesis
  proof (cases "?ts = []")
    case True
    then show ?thesis
      unfolding step_bucket_def by (simp add: dg[OF i] io_bind_def io_return_def fetch empty)
  next
    case False
    then have "step_bucket labels (Some A) i mb = for_each ?ts ?body mb"
      unfolding step_bucket_def by (simp add: dg[OF i] io_bind_def io_return_def fetch)
    then show ?thesis by (simp only: loop result)
  qed
qed

subsection \<open>The loop over the buckets\<close>

lemma map_threads_simps [simp]:
  "requests_left (map_threads g mb) = requests_left mb"
  "all_labels (map_threads g mb) = all_labels mb"
  "thread_ids (map_threads g mb) = thread_ids mb"
  "thread_messages (map_threads g mb) = thread_messages mb"
  "thread_labels (map_threads g mb) t
     = (if t \<in> set (thread_ids mb) then g (thread_labels mb t) else thread_labels mb t)"
  by (simp_all add: map_threads_def)

lemma map_threads_preserves [simp]:
  "registry_ok (map_threads g mb) = registry_ok mb"
  "countdown_ids (map_threads g mb) L A = countdown_ids mb L A"
  "find_label_id (map_threads g mb) n = find_label_id mb n"
  by (simp_all add: map_threads_def)

lemma map_threads_compose:
  "map_threads g2 (map_threads g1 mb) = map_threads (\<lambda>S. g2 (g1 S)) mb"
  by (simp add: map_threads_def fun_eq_iff)

lemma map_threads_ident: "map_threads (\<lambda>S. S) mb = mb"
  by (simp add: map_threads_def)

lemma for_each_step_bucket:
  assumes reg: "registry_ok mb0" and ids: "countdown_ids mb0 L A"
    and labels: "labels = map (\<lambda>i. (i, Some (L i))) [0..<INBOX_DAYS + 1]"
  shows "requests_left mb = None \<Longrightarrow> all_labels mb = all_labels mb0 \<Longrightarrow>
    \<forall>i \<in> set order. i \<le> INBOX_DAYS \<Longrightarrow>
    for_each order (step_bucket labels (Some A)) mb
      = Some (Inr (), map_threads (fold (advance_bucket L A) order) mb)"
proof (induction order arbitrary: mb)
  case Nil
  then show ?case by (simp add: io_return_def map_threads_ident)
next
  case (Cons i order)
  have reg': "registry_ok mb" using reg Cons.prems(2) by (simp add: registry_ok_def)
  have ids': "countdown_ids mb L A"
    using ids Cons.prems(2) by (simp add: countdown_ids_def find_label_id_def)
  have 1: "step_bucket labels (Some A) i mb = Some (Inr (), map_threads (advance_bucket L A i) mb)"
    using Cons.prems by (intro step_bucket_ok[OF _ reg' ids' _ labels]) auto
  have 2: "for_each order (step_bucket labels (Some A)) (map_threads (advance_bucket L A i) mb)
      = Some (Inr (), map_threads (fold (advance_bucket L A) order) (map_threads (advance_bucket L A i) mb))"
    using Cons.prems by (intro Cons.IH) auto
  show ?case by (simp add: io_bind_def 1 2 map_threads_compose)
qed

lemma day_labels_ids:
  assumes "requests_left mb = None" "countdown_ids mb L A"
  shows "day_labels mb = Some (Inr (map (\<lambda>i. (i, Some (L i))) [0..<INBOX_DAYS + 1]), mb)"
proof -
  have "map (\<lambda>i. (i, find_label_id mb (x_name i))) [0..<INBOX_DAYS + 1]
      = map (\<lambda>i. (i, Some (L i))) [0..<INBOX_DAYS + 1]"
    using assms(2) unfolding countdown_ids_def by (intro map_cong) auto
  with day_labels_ok[OF assms(1)] show ?thesis by simp
qed

lemma step_expiration_fold:
  assumes "requests_left mb = None" "registry_ok mb" "countdown_ids mb L A"
  shows "step_expiration mb
      = Some (Inr (), map_threads (fold (advance_bucket L A) [0..<INBOX_DAYS + 1]) mb)"
    and "step_expiration_descending mb
      = Some (Inr (), map_threads (fold (advance_bucket L A) (rev [0..<INBOX_DAYS + 1])) mb)"
proof -
  have g: "get_label_id ''auto-archived'' mb = Some (Inr (Some A), mb)"
    using assms by (simp add: get_label_id_ok countdown_ids_archived)
  note dl = day_labels_ids[OF assms(1,3)]
  have "step_expiration mb
      = for_each [0..<INBOX_DAYS + 1] (step_bucket (map (\<lambda>i. (i, Some (L i))) [0..<INBOX_DAYS + 1]) (Some A)) mb"
    unfolding step_expiration_def by (simp only: io_bind_def dl g option.case prod.case sum.case)
  then show "step_expiration mb
      = Some (Inr (), map_threads (fold (advance_bucket L A) [0..<INBOX_DAYS + 1]) mb)"
    using for_each_step_bucket[OF assms(2,3) refl assms(1) refl, of "[0..<INBOX_DAYS + 1]"]
    by simp
  have "step_expiration_descending mb
      = for_each (rev [0..<INBOX_DAYS + 1]) (step_bucket (map (\<lambda>i. (i, Some (L i))) [0..<INBOX_DAYS + 1]) (Some A)) mb"
    unfolding step_expiration_descending_def
    by (simp only: io_bind_def dl g option.case prod.case sum.case)
  then show "step_expiration_descending mb
      = Some (Inr (), map_threads (fold (advance_bucket L A) (rev [0..<INBOX_DAYS + 1])) mb)"
    using for_each_step_bucket[OF assms(2,3) refl assms(1) refl, of "rev [0..<INBOX_DAYS + 1]"]
    by simp
qed

text \<open>The labels of one thread under the ascending pass.\<close>

lemma advance_prefix:
  assumes inj: "\<And>i j. i \<le> n \<Longrightarrow> j \<le> n \<Longrightarrow> L i = L j \<longleftrightarrow> i = j"
    and other: "\<And>i. i \<le> n \<Longrightarrow> L i \<noteq> A \<and> L i \<noteq> INBOX" and AI: "A \<noteq> INBOX"
  shows "k \<le> Suc n \<Longrightarrow> fold (advance_bucket L A) [0..<k] S =
    ((S - L ` {i. i < k}) - (if 0 < k \<and> L 0 \<in> S then {INBOX} else {}))
    \<union> L ` {i. Suc i < k \<and> L (Suc i) \<in> S}
    \<union> (if 0 < k \<and> L 0 \<in> S then {A} else {})"
proof (induction k)
  case 0
  then show ?case by simp
next
  case (Suc k)
  let ?C = "((S - L ` {i. i < k}) - (if 0 < k \<and> L 0 \<in> S then {INBOX} else {}))
    \<union> L ` {i. Suc i < k \<and> L (Suc i) \<in> S}
    \<union> (if 0 < k \<and> L 0 \<in> S then {A} else {})"
  have kn: "k \<le> n" using Suc.prems by simp
  have ih: "fold (advance_bucket L A) [0..<k] S = ?C" using Suc by simp
  have below: "\<And>x. x < k \<Longrightarrow> L x \<noteq> L k"
    using inj[of _ k] kn by auto
  have n1: "L k \<notin> L ` {i. i < k}" using below by force
  have n2: "L k \<notin> L ` {i. Suc i < k \<and> L (Suc i) \<in> S}"
  proof
    assume "L k \<in> L ` {i. Suc i < k \<and> L (Suc i) \<in> S}"
    then obtain x where "Suc x < k" "L k = L x" by blast
    with below[of x] show False by simp
  qed
  have mem: "L k \<in> ?C \<longleftrightarrow> L k \<in> S"
    using other[OF kn] by (simp add: n1 n2)
  have fold_eq: "fold (advance_bucket L A) [0..<Suc k] S = advance_bucket L A k ?C"
    by (simp add: ih)
  show ?case
  proof (cases "L k \<in> S")
    case False
    then have "advance_bucket L A k ?C = ?C" using mem by (simp add: advance_bucket_def)
    moreover have "L ` {i. i < Suc k} = insert (L k) (L ` {i. i < k})"
      by (auto simp: less_Suc_eq)
    moreover have "{i. Suc i < Suc k \<and> L (Suc i) \<in> S} = {i. Suc i < k \<and> L (Suc i) \<in> S}"
      using False by (auto simp: less_Suc_eq)
    moreover have "k = 0 \<Longrightarrow> L 0 \<notin> S" using False by simp
    ultimately show ?thesis unfolding fold_eq using False by (cases "k = 0") auto
  next
    case True
    show ?thesis
    proof (cases "k = 0")
      case k0: True
      then show ?thesis unfolding fold_eq using True AI by (auto simp: advance_bucket_def)
    next
      case k0: False
      then obtain k' where k': "k = Suc k'" by (cases k) auto
      have a: "advance_bucket L A k ?C = (?C - {L k}) \<union> {L k'}"
        using mem True k' by (simp add: advance_bucket_def)
      have b: "L ` {i. i < Suc k} = insert (L k) (L ` {i. i < k})"
        by (auto simp: less_Suc_eq)
      have c: "{i. Suc i < Suc k \<and> L (Suc i) \<in> S} = insert k' {i. Suc i < k \<and> L (Suc i) \<in> S}"
        using True k' by (auto simp: less_Suc_eq)
      note d = n2
      have e: "L k \<noteq> A" "L k \<noteq> INBOX" using other[OF kn] by auto
      have f: "L k' \<noteq> INBOX" using other[of k'] kn k' by auto
      show ?thesis unfolding fold_eq a b c using d e f k0 by auto
    qed
  qed
qed

subsection \<open>The labels of a thread after the advance pass\<close>

lemma bucket_range: "set [0..<INBOX_DAYS + 1] = {i. i \<le> INBOX_DAYS}"
  by auto

lemma advance_all:
  assumes reg: "registry_ok mb" and ids: "countdown_ids mb L A"
  shows "fold (advance_bucket L A) [0..<INBOX_DAYS + 1] S = advance_once L A S"
proof -
  have "fold (advance_bucket L A) [0..<Suc INBOX_DAYS] S =
    ((S - L ` {i. i < Suc INBOX_DAYS}) - (if 0 < Suc INBOX_DAYS \<and> L 0 \<in> S then {INBOX} else {}))
    \<union> L ` {i. Suc i < Suc INBOX_DAYS \<and> L (Suc i) \<in> S}
    \<union> (if 0 < Suc INBOX_DAYS \<and> L 0 \<in> S then {A} else {})"
  proof (rule advance_prefix[where n = INBOX_DAYS])
    show "\<And>i j. i \<le> INBOX_DAYS \<Longrightarrow> j \<le> INBOX_DAYS \<Longrightarrow> (L i = L j) = (i = j)"
      by (rule bucket_ids_distinct[OF reg ids])
    show "\<And>i. i \<le> INBOX_DAYS \<Longrightarrow> L i \<noteq> A \<and> L i \<noteq> INBOX"
      using bucket_ids_other(1,2)[OF reg ids] by simp
    show "A \<noteq> INBOX" using bucket_ids_other(4)[OF reg ids, of 0] by simp
  qed simp
  moreover have "L ` {i. i < Suc INBOX_DAYS} = set (map L [0..<INBOX_DAYS + 1])"
    by (simp only: set_map bucket_range) (auto simp: less_Suc_eq_le)
  moreover have "L ` {i. Suc i < Suc INBOX_DAYS \<and> L (Suc i) \<in> S}
      = set (map L (filter (\<lambda>i. L (Suc i) \<in> S) [0..<INBOX_DAYS]))"
    by auto
  ultimately show ?thesis
    unfolding advance_once_def by (simp del: upt_Suc)
qed

lemma step_expiration_closed:
  assumes "requests_left mb = None" "registry_ok mb" "countdown_ids mb L A"
  shows "step_expiration mb = Some (Inr (), map_threads (advance_once L A) mb)"
proof -
  have "fold (advance_bucket L A) [0..<INBOX_DAYS + 1] = advance_once L A"
    using advance_all[OF assms(2,3)] by (simp only: fun_eq_iff) simp
  with step_expiration_fold(1)[OF assms] show ?thesis by (simp only:)
qed

lemma advance_once_mem:
  assumes reg: "registry_ok mb" and ids: "countdown_ids mb L A"
  shows "j \<le> INBOX_DAYS \<Longrightarrow> L j \<in> advance_once L A S \<longleftrightarrow> j < INBOX_DAYS \<and> L (Suc j) \<in> S"
    and "A \<in> advance_once L A S \<longleftrightarrow> A \<in> S \<or> L 0 \<in> S"
    and "INBOX \<in> advance_once L A S \<longleftrightarrow> INBOX \<in> S \<and> L 0 \<notin> S"
proof -
  let ?B = "set (map L [0..<INBOX_DAYS + 1])"
  let ?M = "set (map L (filter (\<lambda>i. L (Suc i) \<in> S) [0..<INBOX_DAYS]))"
  let ?I = "if L 0 \<in> S then {INBOX} else {}"
  let ?X = "if L 0 \<in> S then {A} else {}"
  note d = bucket_ids_distinct[OF reg ids]
  have o: "\<And>i. i \<le> INBOX_DAYS \<Longrightarrow> L i \<noteq> A" "\<And>i. i \<le> INBOX_DAYS \<Longrightarrow> L i \<noteq> INBOX"
    using bucket_ids_other(1,2)[OF reg ids] by simp_all
  have AI: "A \<noteq> INBOX" using bucket_ids_other(4)[OF reg ids, of 0] by simp
  have mem: "\<And>x. x \<in> advance_once L A S \<longleftrightarrow> (x \<in> S \<and> x \<notin> ?B \<and> x \<notin> ?I) \<or> x \<in> ?M \<or> x \<in> ?X"
    unfolding advance_once_def by (simp only: Un_iff Diff_iff conj_assoc disj_assoc)
  have range: "\<And>x. x \<in> ?B \<Longrightarrow> \<exists>i \<le> INBOX_DAYS. x = L i"
    by (simp only: set_map bucket_range) auto
  have sub: "\<And>x. x \<in> ?M \<Longrightarrow> x \<in> ?B"
    by (simp only: set_map bucket_range set_filter set_upt) auto
  have nA: "A \<notin> ?B"
  proof
    assume "A \<in> ?B"
    from range[OF this] obtain i where "i \<le> INBOX_DAYS" "A = L i" by auto
    with o(1)[of i] show False by simp
  qed
  have nI: "INBOX \<notin> ?B"
  proof
    assume "INBOX \<in> ?B"
    from range[OF this] obtain i where "i \<le> INBOX_DAYS" "INBOX = L i" by auto
    with o(2)[of i] show False by simp
  qed
  have nA': "A \<notin> ?M" using nA sub[of A] by (simp only:) fast
  have nI': "INBOX \<notin> ?M" using nI sub[of INBOX] by (simp only:) fast
  show "A \<in> advance_once L A S \<longleftrightarrow> A \<in> S \<or> L 0 \<in> S"
    using nA nA' AI by (cases "L 0 \<in> S") (simp_all only: mem if_True if_False empty_iff singleton_iff, simp_all only: simp_thms)
  show "INBOX \<in> advance_once L A S \<longleftrightarrow> INBOX \<in> S \<and> L 0 \<notin> S"
    using nI nI' AI AI[symmetric] by (cases "L 0 \<in> S") (simp_all only: mem if_True if_False empty_iff singleton_iff, simp_all only: simp_thms)
  assume j: "j \<le> INBOX_DAYS"
  have 1: "L j \<in> ?B"
    using j by (simp only: set_map bucket_range) auto
  have 2: "L j \<in> ?M \<longleftrightarrow> j < INBOX_DAYS \<and> L (Suc j) \<in> S"
  proof
    assume "L j \<in> ?M"
    then obtain i where "i < INBOX_DAYS" "L (Suc i) \<in> S" "L j = L i" by auto
    with d[of j i] j show "j < INBOX_DAYS \<and> L (Suc j) \<in> S" by simp
  qed auto
  have 3: "L j \<notin> ?X" using o(1)[OF j] by (cases "L 0 \<in> S") simp_all
  show "L j \<in> advance_once L A S \<longleftrightarrow> j < INBOX_DAYS \<and> L (Suc j) \<in> S"
    using 1 2 3 by (simp only: mem simp_thms)
qed

lemma at_most_one_filter:
  assumes "distinct xs"
  shows "length (filter P xs) \<le> 1 \<longleftrightarrow> (\<forall>x \<in> set xs. \<forall>y \<in> set xs. P x \<and> P y \<longrightarrow> x = y)"
proof -
  have "length (filter P xs) = card {x \<in> set xs. P x}"
    using assms by (metis distinct_card distinct_filter set_filter)
  moreover have "card {x \<in> set xs. P x} \<le> Suc 0 \<longleftrightarrow> (\<forall>a \<in> {x \<in> set xs. P x}. \<forall>b \<in> {x \<in> set xs. P x}. a = b)"
    by (rule card_le_Suc0_iff_eq) simp
  ultimately show ?thesis by auto
qed

lemma buckets_held_at_most_one:
  "length (buckets_held mb t) \<le> 1 \<longleftrightarrow>
    (\<forall>i \<le> INBOX_DAYS. \<forall>j \<le> INBOX_DAYS.
       has_label_named mb t (x_name i) \<and> has_label_named mb t (x_name j) \<longrightarrow> i = j)"
  unfolding buckets_held_def by (simp only: at_most_one_filter[OF distinct_upt] bucket_range) auto

lemma buckets_held_empty:
  "buckets_held mb t = [] \<longleftrightarrow> (\<forall>i \<le> INBOX_DAYS. \<not> has_label_named mb t (x_name i))"
  unfolding buckets_held_def by (simp only: filter_empty_conv bucket_range) auto

lemma has_bucket_iff:
  "registry_ok mb \<Longrightarrow> countdown_ids mb L A \<Longrightarrow> i \<le> INBOX_DAYS \<Longrightarrow>
   has_label_named mb t (x_name i) \<longleftrightarrow> L i \<in> thread_labels mb t"
  by (rule has_label_named_iff) (simp_all add: countdown_ids_bucket)

lemma has_archived_iff:
  "registry_ok mb \<Longrightarrow> countdown_ids mb L A \<Longrightarrow>
   has_label_named mb t ''auto-archived'' \<longleftrightarrow> A \<in> thread_labels mb t"
  by (rule has_label_named_iff) (simp_all add: countdown_ids_archived)

subsection \<open>The example store is well formed\<close>

lemma countdown_store_ok:
  "requests_left countdown_store = None" "registry_ok countdown_store"
  "countdown_ready countdown_store"
  "\<forall>t \<in> set (thread_ids countdown_store). length (buckets_held countdown_store t) \<le> 1"
     apply (simp add: countdown_store_def)
    apply (simp add: countdown_store_def registry_ok_def countdown_labels_def)
   apply (simp add: countdown_store_def countdown_ready_def countdown_labels_def find_label_id_def
      INBOX_DAYS_def x_name_def str_int_def str_nat.simps digit_char_def upt_rec)
  apply (simp add: countdown_store_def buckets_held_def has_label_named_def countdown_labels_def
      INBOX_DAYS_def x_name_def str_int_def str_nat.simps digit_char_def upt_rec)
  done


subsection \<open>The advance pass\<close>

text \<open>
  C1. Conservation under advance. On a transport that does not fail, with a
  well-formed label list in which the countdown labels exist, and with every thread
  holding at most one bucket label: one run of \<open>step_expiration\<close> returns, and for
  every \<open>i\<close> from 1 to N the threads that hold bucket \<open>i - 1\<close> afterwards are exactly
  the threads that held bucket \<open>i\<close> before (so bucket N is empty afterwards); every
  thread that held bucket 0 before holds the archived label afterwards, holds no
  bucket label and is not in the inbox.
\<close>

theorem step_expiration_conservation:
  assumes nf: "requests_left mb = None" and reg: "registry_ok mb" and ready: "countdown_ready mb"
    and one: "at_most_one_bucket mb"
  shows "\<exists>mb'. step_expiration mb = Some (Inr (), mb')
      \<and> thread_ids mb' = thread_ids mb \<and> all_labels mb' = all_labels mb
      \<and> (\<forall>i \<in> set [1..<INBOX_DAYS + 1]. in_bucket mb' (i - 1) = in_bucket mb i)
      \<and> in_bucket mb' INBOX_DAYS = {}
      \<and> (\<forall>t \<in> in_bucket mb 0.
            t \<in> in_archived mb' \<and> buckets_held mb' t = [] \<and> INBOX \<notin> thread_labels mb' t)"
proof -
  from countdown_ids_exist[OF ready] obtain L A where ids: "countdown_ids mb L A" by blast
  let ?mb' = "map_threads (advance_once L A) mb"
  note mem = advance_once_mem[OF reg ids]
  have reg': "registry_ok ?mb'" and ids': "countdown_ids ?mb' L A" using reg ids by simp_all
  have hb: "\<And>t i. i \<le> INBOX_DAYS \<Longrightarrow> t \<in> set (thread_ids mb) \<Longrightarrow>
      has_label_named ?mb' t (x_name i) \<longleftrightarrow> i < INBOX_DAYS \<and> L (Suc i) \<in> thread_labels mb t"
    by (simp add: has_bucket_iff[OF reg' ids'] mem)
  have hb0: "\<And>t i. i \<le> INBOX_DAYS \<Longrightarrow> has_label_named mb t (x_name i) \<longleftrightarrow> L i \<in> thread_labels mb t"
    by (simp add: has_bucket_iff[OF reg ids])
  have 1: "step_expiration mb = Some (Inr (), ?mb')"
    by (rule step_expiration_closed[OF nf reg ids])
  have 2: "\<forall>i \<in> set [1..<INBOX_DAYS + 1]. in_bucket ?mb' (i - 1) = in_bucket mb i"
  proof
    fix i assume "i \<in> set [1..<INBOX_DAYS + 1]"
    then have i: "1 \<le> i" "i \<le> INBOX_DAYS" by auto
    then have "i - 1 \<le> INBOX_DAYS" "i - 1 < INBOX_DAYS" "Suc (i - 1) = i" by auto
    then show "in_bucket ?mb' (i - 1) = in_bucket mb i"
      unfolding in_bucket_def using hb[of "i - 1"] hb0[OF i(2)] by auto
  qed
  have 3: "in_bucket ?mb' INBOX_DAYS = {}"
    unfolding in_bucket_def using hb[of INBOX_DAYS] by auto
  have 4: "\<forall>t \<in> in_bucket mb 0.
      t \<in> in_archived ?mb' \<and> buckets_held ?mb' t = [] \<and> INBOX \<notin> thread_labels ?mb' t"
  proof
    fix t assume "t \<in> in_bucket mb 0"
    then have t: "t \<in> set (thread_ids mb)" and l0: "L 0 \<in> thread_labels mb t"
      using hb0[of 0 t] by (auto simp: in_bucket_def)
    have only: "\<And>j. j \<le> INBOX_DAYS \<Longrightarrow> L j \<in> thread_labels mb t \<Longrightarrow> j = 0"
      using one t l0 hb0 unfolding at_most_one_bucket_def buckets_held_at_most_one by blast
    have a: "t \<in> in_archived ?mb'"
      using t l0 by (simp add: in_archived_def has_archived_iff[OF reg' ids'] mem)
    have b: "buckets_held ?mb' t = []"
      unfolding buckets_held_empty
    proof (intro allI impI)
      fix i assume i: "i \<le> INBOX_DAYS"
      show "\<not> has_label_named ?mb' t (x_name i)"
      proof
        assume "has_label_named ?mb' t (x_name i)"
        with hb[OF i t] have "i < INBOX_DAYS" "L (Suc i) \<in> thread_labels mb t" by simp_all
        with only[of "Suc i"] show False by simp
      qed
    qed
    have c: "INBOX \<notin> thread_labels ?mb' t" using t l0 by (simp add: mem)
    from a b c show "t \<in> in_archived ?mb' \<and> buckets_held ?mb' t = [] \<and> INBOX \<notin> thread_labels ?mb' t"
      by simp
  qed
  from 1 2 3 4 show ?thesis by (intro exI[of _ ?mb']) simp
qed


theorem step_expiration_conservation_witness:
  "requests_left countdown_store = None \<and> registry_ok countdown_store
   \<and> countdown_ready countdown_store
   \<and> at_most_one_bucket countdown_store
   \<and> (\<exists>mb'. step_expiration countdown_store = Some (Inr (), mb')
      \<and> thread_ids mb' = thread_ids countdown_store \<and> all_labels mb' = all_labels countdown_store
      \<and> (\<forall>i \<in> set [1..<INBOX_DAYS + 1]. in_bucket mb' (i - 1) = in_bucket countdown_store i)
      \<and> in_bucket mb' INBOX_DAYS = {}
      \<and> (\<forall>t \<in> in_bucket countdown_store 0.
            t \<in> in_archived mb' \<and> buckets_held mb' t = [] \<and> INBOX \<notin> thread_labels mb' t))"
proof -
  have one: "at_most_one_bucket countdown_store"
    using countdown_store_ok(4) by (simp add: at_most_one_bucket_def)
  from countdown_store_ok(1,2,3) one
    step_expiration_conservation[OF countdown_store_ok(1,2,3) one]
  show ?thesis by (intro conjI)
qed

subsection \<open>Admission\<close>


lemma add_inbox_expiration_unfold:
  "requests_left mb = None \<Longrightarrow>
   add_inbox_expiration mb
     = for_each (search mb admission_query)
         (\<lambda>thread. threads_modify thread [find_label_id mb (x_name INBOX_DAYS)] []) mb"
  unfolding add_inbox_expiration_def admission_query_def
  by (simp only: io_bind_def get_label_id_ok fetch_all_threads_ok Let_def option.case prod.case sum.case)

lemma search_subset: "set (search mb q) \<subseteq> set (thread_ids mb)"
  by (auto simp: search_def)

lemma add_inbox_expiration_ok:
  assumes nf: "requests_left mb = None" and l: "find_label_id mb (x_name INBOX_DAYS) = Some l"
  shows "add_inbox_expiration mb
    = Some (Inr (), mb\<lparr>thread_labels := (\<lambda>t. if t \<in> set (search mb admission_query)
                           then insert l (thread_labels mb t) else thread_labels mb t)\<rparr>)"
proof -
  let ?P = "\<lambda>m. requests_left m = None \<and> all_labels m = all_labels mb \<and> thread_ids m = thread_ids mb"
  have body: "\<And>t (m::mailbox). ?P m \<Longrightarrow> t \<in> set (search mb admission_query) \<Longrightarrow>
      threads_modify t [Some l] [] m
        = Some (Inr (), m\<lparr>thread_labels := (thread_labels m)(t := insert l (thread_labels m t))\<rparr>)"
  proof -
    fix t and m :: mailbox
    assume P: "?P m" and t: "t \<in> set (search mb admission_query)"
    have "valid_label_id m (Some l)"
      using found_is_valid[OF l] P by (simp add: valid_label_id_def)
    then show "threads_modify t [Some l] [] m
        = Some (Inr (), m\<lparr>thread_labels := (thread_labels m)(t := insert l (thread_labels m t))\<rparr>)"
      using P t search_subset[of mb admission_query]
      by (subst threads_modify_ok) (auto simp: modified_labels_def)
  qed
  show ?thesis
    unfolding add_inbox_expiration_unfold[OF nf] l
    by (rule for_each_update[where P = ?P, OF body]) (use nf in auto)
qed


lemma admission_matches:
  "t \<in> set (search mb admission_query) \<longleftrightarrow>
     t \<in> set (thread_ids mb) \<and> INBOX \<in> thread_labels mb t \<and> STARRED \<notin> thread_labels mb t
     \<and> (\<forall>i \<le> INBOX_DAYS. \<not> has_label_named mb t (x_name i))"
  unfolding search_def admission_query_def
  by (simp only: set_filter set_append set_map bucket_range) auto





subsection \<open>The cleanup pass\<close>

lemma search_stray:
  assumes "registry_ok mb" "find_label_id mb n = Some a"
  shows "search mb [Not_in_inbox, Has_label n]
    = filter (\<lambda>t. INBOX \<notin> thread_labels mb t \<and> a \<in> thread_labels mb t) (thread_ids mb)"
  by (simp add: search_def has_label_named_iff[OF assms])

lemma strip_bucket_ok:
  assumes nf: "requests_left mb = None" and reg: "registry_ok mb"
    and ids: "countdown_ids mb L A" and i: "i \<le> INBOX_DAYS"
  shows "io_bind (fetch_all_threads [Not_in_inbox, Has_label (x_name i)]) (\<lambda>threads.
           for_each threads (\<lambda>thread. threads_modify thread [] [Some (L i)])) mb
         = Some (Inr (), map_threads (strip_bucket L i) mb)"
proof -
  let ?ts = "filter (\<lambda>t. INBOX \<notin> thread_labels mb t \<and> L i \<in> thread_labels mb t) (thread_ids mb)"
  let ?P = "\<lambda>m. requests_left m = None \<and> all_labels m = all_labels mb \<and> thread_ids m = thread_ids mb"
  have fetch: "fetch_all_threads [Not_in_inbox, Has_label (x_name i)] mb = Some (Inr ?ts, mb)"
    by (simp add: fetch_all_threads_ok[OF nf] search_stray[OF reg countdown_ids_bucket[OF ids i]])
  have body: "\<And>t (m::mailbox). ?P m \<Longrightarrow> t \<in> set ?ts \<Longrightarrow>
      threads_modify t [] [Some (L i)] m
        = Some (Inr (), m\<lparr>thread_labels := (thread_labels m)(t := thread_labels m t - {L i})\<rparr>)"
  proof -
    fix t and m :: mailbox
    assume P: "?P m" and t: "t \<in> set ?ts"
    have "valid_label_id m (Some (L i))"
      using found_is_valid[OF countdown_ids_bucket[OF ids i]] P by (simp add: valid_label_id_def)
    then show "threads_modify t [] [Some (L i)] m
        = Some (Inr (), m\<lparr>thread_labels := (thread_labels m)(t := thread_labels m t - {L i})\<rparr>)"
      using P t by (subst threads_modify_ok) (auto simp: modified_labels_def)
  qed
  have loop: "for_each ?ts (\<lambda>thread. threads_modify thread [] [Some (L i)]) mb =
      Some (Inr (), mb\<lparr>thread_labels := (\<lambda>t. if t \<in> set ?ts then thread_labels mb t - {L i}
                                               else thread_labels mb t)\<rparr>)"
    by (rule for_each_update[where P = ?P, OF body]) (use nf in auto)
  have "(\<lambda>t. if t \<in> set ?ts then thread_labels mb t - {L i} else thread_labels mb t)
      = (\<lambda>t. if t \<in> set (thread_ids mb) then strip_bucket L i (thread_labels mb t)
           else thread_labels mb t)"
    by (auto simp: strip_bucket_def fun_eq_iff)
  then have result: "mb\<lparr>thread_labels := (\<lambda>t. if t \<in> set ?ts then thread_labels mb t - {L i}
                                               else thread_labels mb t)\<rparr>
      = map_threads (strip_bucket L i) mb"
    by (simp only: map_threads_def)
  show ?thesis
    by (simp only: io_bind_def fetch option.case prod.case sum.case loop result)
qed

lemma for_each_strip_bucket:
  assumes reg: "registry_ok mb0" and ids: "countdown_ids mb0 L A"
  shows "requests_left mb = None \<Longrightarrow> all_labels mb = all_labels mb0 \<Longrightarrow>
    \<forall>i \<in> set order. i \<le> INBOX_DAYS \<Longrightarrow>
    for_each (map (\<lambda>i. (i, Some (L i))) order) (\<lambda>(i, label_id).
         io_bind (fetch_all_threads [Not_in_inbox, Has_label (x_name i)]) (\<lambda>threads.
           for_each threads (\<lambda>thread. threads_modify thread [] [label_id]))) mb
      = Some (Inr (), map_threads (fold (strip_bucket L) order) mb)"
proof (induction order arbitrary: mb)
  case Nil
  then show ?case by (simp add: io_return_def map_threads_ident)
next
  case (Cons i order)
  have reg': "registry_ok mb" using reg Cons.prems(2) by (simp add: registry_ok_def)
  have ids': "countdown_ids mb L A"
    using ids Cons.prems(2) by (simp add: countdown_ids_def find_label_id_def)
  have 1: "io_bind (fetch_all_threads [Not_in_inbox, Has_label (x_name i)]) (\<lambda>threads.
           for_each threads (\<lambda>thread. threads_modify thread [] [Some (L i)])) mb
         = Some (Inr (), map_threads (strip_bucket L i) mb)"
    using Cons.prems by (intro strip_bucket_ok[OF _ reg' ids']) auto
  have 2: "for_each (map (\<lambda>i. (i, Some (L i))) order) (\<lambda>(i, label_id).
         io_bind (fetch_all_threads [Not_in_inbox, Has_label (x_name i)]) (\<lambda>threads.
           for_each threads (\<lambda>thread. threads_modify thread [] [label_id])))
        (map_threads (strip_bucket L i) mb)
      = Some (Inr (), map_threads (fold (strip_bucket L) order) (map_threads (strip_bucket L i) mb))"
    using Cons.prems by (intro Cons.IH) auto
  have "for_each (map (\<lambda>i. (i, Some (L i))) (i # order)) (\<lambda>(i, label_id).
         io_bind (fetch_all_threads [Not_in_inbox, Has_label (x_name i)]) (\<lambda>threads.
           for_each threads (\<lambda>thread. threads_modify thread [] [label_id]))) mb
       = io_bind (io_bind (fetch_all_threads [Not_in_inbox, Has_label (x_name i)]) (\<lambda>threads.
           for_each threads (\<lambda>thread. threads_modify thread [] [Some (L i)])))
         (\<lambda>_. for_each (map (\<lambda>i. (i, Some (L i))) order) (\<lambda>(i, label_id).
         io_bind (fetch_all_threads [Not_in_inbox, Has_label (x_name i)]) (\<lambda>threads.
           for_each threads (\<lambda>thread. threads_modify thread [] [label_id])))) mb"
    by simp
  also have "\<dots> = Some (Inr (), map_threads (fold (strip_bucket L) order) (map_threads (strip_bucket L i) mb))"
    unfolding io_bind_def[of "io_bind _ _"] 1 by (simp add: 2)
  finally show ?case by (simp add: map_threads_compose)
qed

lemma strip_tags_closed:
  assumes "requests_left mb = None" "registry_ok mb" "countdown_ids mb L A"
  shows "strip_tags_on_archived_emails mb
      = Some (Inr (), map_threads (fold (strip_bucket L) [0..<INBOX_DAYS + 1]) mb)"
proof -
  note dl = day_labels_ids[OF assms(1,3)]
  have "strip_tags_on_archived_emails mb
      = for_each (map (\<lambda>i. (i, Some (L i))) [0..<INBOX_DAYS + 1]) (\<lambda>(i, label_id).
         io_bind (fetch_all_threads [Not_in_inbox, Has_label (x_name i)]) (\<lambda>threads.
           for_each threads (\<lambda>thread. threads_modify thread [] [label_id]))) mb"
    unfolding strip_tags_on_archived_emails_def
    by (simp only: io_bind_def dl option.case prod.case sum.case)
  then show ?thesis
    using for_each_strip_bucket[OF assms(2,3) assms(1) refl, of "[0..<INBOX_DAYS + 1]"]
    by simp
qed

lemma fold_strip_subset: "fold (strip_bucket L) order S \<subseteq> S"
proof (induction order arbitrary: S)
  case Nil
  show ?case by simp
next
  case (Cons i order)
  have "fold (strip_bucket L) order (strip_bucket L i S) \<subseteq> strip_bucket L i S" by (rule Cons.IH)
  also have "strip_bucket L i S \<subseteq> S" by (auto simp: strip_bucket_def)
  finally show ?case by simp
qed

subsection \<open>The countdown invariants\<close>

lemma buckets_held_ids:
  assumes "registry_ok mb" "countdown_ids mb L A"
  shows "length (buckets_held mb t) \<le> 1 \<longleftrightarrow> one_bucket_in L (thread_labels mb t)"
  unfolding buckets_held_at_most_one one_bucket_in_def
  using has_bucket_iff[OF assms] by simp

lemma countdown_names_distinct:
  "distinct (map x_name [0..<INBOX_DAYS + 1] @ [''auto-archived''])"
proof -
  have "inj_on x_name (set [0..<INBOX_DAYS + 1])"
    unfolding bucket_range by (rule inj_onI) (simp add: x_name_inj)
  then have "distinct (map x_name [0..<INBOX_DAYS + 1])"
    by (simp only: distinct_map distinct_upt simp_thms)
  moreover have "''auto-archived'' \<notin> set (map x_name [0..<INBOX_DAYS + 1])"
    using x_name_not_other(1)[symmetric] by (simp only: set_map) auto
  ultimately show ?thesis by (simp only: distinct_append distinct.simps set_simps) auto
qed

lemma countdown_held_ids:
  assumes reg: "registry_ok mb" and ids: "countdown_ids mb L A"
  shows "length (countdown_labels_held mb t) \<le> 1 \<longleftrightarrow> one_countdown_in L A (thread_labels mb t)"
proof -
  let ?S = "thread_labels mb t"
  let ?names = "map x_name [0..<INBOX_DAYS + 1] @ [''auto-archived'']"
  have names: "\<And>n. n \<in> set ?names \<longleftrightarrow> (\<exists>i \<le> INBOX_DAYS. n = x_name i) \<or> n = ''auto-archived''"
    by (simp only: set_append set_map bucket_range) auto
  have hb: "\<And>i. i \<le> INBOX_DAYS \<Longrightarrow> has_label_named mb t (x_name i) \<longleftrightarrow> L i \<in> ?S"
    by (rule has_bucket_iff[OF reg ids])
  have ha: "has_label_named mb t ''auto-archived'' \<longleftrightarrow> A \<in> ?S"
    by (rule has_archived_iff[OF reg ids])
  have "length (countdown_labels_held mb t) \<le> 1 \<longleftrightarrow>
      (\<forall>n \<in> set ?names. \<forall>m \<in> set ?names. has_label_named mb t n \<and> has_label_named mb t m \<longrightarrow> n = m)"
    unfolding countdown_labels_held_def by (rule at_most_one_filter[OF countdown_names_distinct])
  also have "\<dots> \<longleftrightarrow> one_countdown_in L A ?S"
  proof
    assume a: "\<forall>n \<in> set ?names. \<forall>m \<in> set ?names. has_label_named mb t n \<and> has_label_named mb t m \<longrightarrow> n = m"
    have 1: "one_bucket_in L ?S"
      unfolding one_bucket_in_def
    proof (intro allI impI)
      fix i j assume i: "i \<le> INBOX_DAYS" and j: "j \<le> INBOX_DAYS" and h: "L i \<in> ?S \<and> L j \<in> ?S"
      have "x_name i \<in> set ?names" "x_name j \<in> set ?names" using i j names by blast+
      with a h hb[OF i] hb[OF j] have "x_name i = x_name j" by blast
      then show "i = j" using i j by (simp add: x_name_inj)
    qed
    have 2: "\<forall>i \<le> INBOX_DAYS. L i \<in> ?S \<longrightarrow> A \<notin> ?S"
    proof (intro allI impI notI)
      fix i assume i: "i \<le> INBOX_DAYS" and h: "L i \<in> ?S" "A \<in> ?S"
      have "x_name i \<in> set ?names" "''auto-archived'' \<in> set ?names" using i names by blast+
      with a h hb[OF i] ha have "x_name i = ''auto-archived''" by blast
      then show False by simp
    qed
    from 1 2 show "one_countdown_in L A ?S" by (simp add: one_countdown_in_def)
  next
    assume o: "one_countdown_in L A ?S"
    show "\<forall>n \<in> set ?names. \<forall>m \<in> set ?names. has_label_named mb t n \<and> has_label_named mb t m \<longrightarrow> n = m"
    proof (intro ballI impI)
      fix n m assume n: "n \<in> set ?names" and m: "m \<in> set ?names"
        and h: "has_label_named mb t n \<and> has_label_named mb t m"
      from n names consider i where "i \<le> INBOX_DAYS" "n = x_name i" | "n = ''auto-archived''" by blast
      then show "n = m"
      proof cases
        case 1
        from m names consider j where "j \<le> INBOX_DAYS" "m = x_name j" | "m = ''auto-archived''" by blast
        then show ?thesis
        proof cases
          case (1 j)
          with \<open>i \<le> INBOX_DAYS\<close> \<open>n = x_name i\<close> h hb o show ?thesis
            by (auto simp: one_countdown_in_def one_bucket_in_def)
        next
          case 2
          with \<open>i \<le> INBOX_DAYS\<close> \<open>n = x_name i\<close> h hb ha o show ?thesis
            by (auto simp: one_countdown_in_def)
        qed
      next
        case 2
        from m names consider j where "j \<le> INBOX_DAYS" "m = x_name j" | "m = ''auto-archived''" by blast
        then show ?thesis
        proof cases
          case (1 j)
          with 2 h hb ha o show ?thesis by (auto simp: one_countdown_in_def)
        next
          case 2
          with \<open>n = ''auto-archived''\<close> show ?thesis by simp
        qed
      qed
    qed
  qed
  finally show ?thesis .
qed

lemma one_bucket_in_subset: "S' \<subseteq> S \<Longrightarrow> one_bucket_in L S \<Longrightarrow> one_bucket_in L S'"
  unfolding one_bucket_in_def by blast

lemma one_countdown_in_subset: "S' \<subseteq> S \<Longrightarrow> one_countdown_in L A S \<Longrightarrow> one_countdown_in L A S'"
  unfolding one_countdown_in_def one_bucket_in_def by blast

lemma one_bucket_in_advance:
  assumes reg: "registry_ok mb" and ids: "countdown_ids mb L A" and o: "one_bucket_in L S"
  shows "one_bucket_in L (advance_once L A S)"
  unfolding one_bucket_in_def
proof (intro allI impI)
  fix i j assume i: "i \<le> INBOX_DAYS" and j: "j \<le> INBOX_DAYS"
    and h: "L i \<in> advance_once L A S \<and> L j \<in> advance_once L A S"
  from h advance_once_mem(1)[OF reg ids i] advance_once_mem(1)[OF reg ids j]
  have "i < INBOX_DAYS" "L (Suc i) \<in> S" "j < INBOX_DAYS" "L (Suc j) \<in> S" by simp_all
  with o have "Suc i = Suc j" unfolding one_bucket_in_def by (metis Suc_leI)
  then show "i = j" by simp
qed

lemma one_countdown_in_advance:
  assumes reg: "registry_ok mb" and ids: "countdown_ids mb L A" and o: "one_countdown_in L A S"
  shows "one_countdown_in L A (advance_once L A S)"
proof -
  from o have ob: "one_bucket_in L S" and oa: "\<And>i. i \<le> INBOX_DAYS \<Longrightarrow> L i \<in> S \<Longrightarrow> A \<notin> S"
    by (auto simp: one_countdown_in_def)
  have "A \<notin> advance_once L A S" if i: "i \<le> INBOX_DAYS" and h: "L i \<in> advance_once L A S" for i
  proof
    assume a: "A \<in> advance_once L A S"
    from h advance_once_mem(1)[OF reg ids i] have s: "i < INBOX_DAYS" "L (Suc i) \<in> S" by simp_all
    from a advance_once_mem(2)[OF reg ids] have "A \<in> S \<or> L 0 \<in> S" by simp
    then show False
    proof
      assume "A \<in> S"
      with oa[of "Suc i"] s show False by simp
    next
      assume "L 0 \<in> S"
      with ob s have "Suc i = 0" unfolding one_bucket_in_def by (metis Suc_leI le0)
      then show False by simp
    qed
  qed
  with one_bucket_in_advance[OF reg ids ob] show ?thesis by (simp add: one_countdown_in_def)
qed

lemma one_bucket_in_admitted:
  assumes reg: "registry_ok mb" and ids: "countdown_ids mb L A"
    and none: "\<forall>i \<le> INBOX_DAYS. L i \<notin> S"
  shows "one_bucket_in L (insert (L INBOX_DAYS) S)"
  unfolding one_bucket_in_def
proof (intro allI impI)
  fix i j assume i: "i \<le> INBOX_DAYS" and j: "j \<le> INBOX_DAYS"
    and h: "L i \<in> insert (L INBOX_DAYS) S \<and> L j \<in> insert (L INBOX_DAYS) S"
  with none have "L i = L INBOX_DAYS" "L j = L INBOX_DAYS" by auto
  then have "i = INBOX_DAYS" "j = INBOX_DAYS"
    using bucket_ids_distinct[OF reg ids i, of INBOX_DAYS]
      bucket_ids_distinct[OF reg ids j, of INBOX_DAYS] by simp_all
  then show "i = j" by simp
qed

subsection \<open>The order of the buckets\<close>

lemma bucket_list: "[0..<INBOX_DAYS + 1] = [0, 1, 2, 3, 4, 5, 6, 7]"
  unfolding INBOX_DAYS_def by code_simp

lemma countdown_store_ids: "countdown_ids countdown_store UserLabel (UserLabel 8)"
  by (simp add: countdown_ids_def countdown_store_def countdown_labels_def find_label_id_def
      INBOX_DAYS_def x_name_def str_int_def str_nat.simps digit_char_def upt_rec)

lemma rearrived_store_ok:
  "requests_left rearrived_store = None" "registry_ok rearrived_store"
  "countdown_ids rearrived_store UserLabel (UserLabel 8)"
    apply (simp add: rearrived_store_def)
   apply (simp add: rearrived_store_def registry_ok_def countdown_labels_def)
  apply (simp add: countdown_ids_def rearrived_store_def countdown_labels_def find_label_id_def
      INBOX_DAYS_def x_name_def str_int_def str_nat.simps digit_char_def upt_rec)
  done

text \<open>
  C2, as stated, fails. The store \<open>countdown_store\<close> has every thread in at most one
  bucket; thread 1 is in bucket 7. The pass of the source, from bucket 0 up to
  bucket N, leaves it in bucket 6 and in the inbox; the pass from bucket N down to
  bucket 0, each bucket fetched when it is processed, carries it through every bucket
  and leaves it archived and out of the inbox.
\<close>

theorem advance_order_matters:
  "at_most_one_bucket countdown_store
   \<and> step_expiration countdown_store \<noteq> step_expiration_descending countdown_store
   \<and> thread_labels (state_after step_expiration countdown_store) 1 = {INBOX, UserLabel 6}
   \<and> thread_labels (state_after step_expiration_descending countdown_store) 1 = {UserLabel 8}"
proof -
  note ok = countdown_store_ok(1,2) countdown_store_ids
  have t1: "thread_labels countdown_store 1 = {INBOX, UserLabel 7}"
    "1 \<in> set (thread_ids countdown_store)"
    by (simp_all add: countdown_store_def)
  have up: "fold (advance_bucket UserLabel (UserLabel 8)) [0..<INBOX_DAYS + 1] {INBOX, UserLabel 7}
      = {INBOX, UserLabel 6}"
    unfolding bucket_list by (auto simp: advance_bucket_def)
  have down: "fold (advance_bucket UserLabel (UserLabel 8)) (rev [0..<INBOX_DAYS + 1]) {INBOX, UserLabel 7}
      = {UserLabel 8}"
    unfolding bucket_list by (auto simp: advance_bucket_def)
  have a: "thread_labels (state_after step_expiration countdown_store) 1 = {INBOX, UserLabel 6}"
    by (simp only: state_after_def step_expiration_fold(1)[OF ok] option.case prod.case
        map_threads_simps t1 if_True up)
  have b: "thread_labels (state_after step_expiration_descending countdown_store) 1 = {UserLabel 8}"
    by (simp only: state_after_def step_expiration_fold(2)[OF ok] option.case prod.case
        map_threads_simps t1 if_True down)
  have c: "step_expiration countdown_store \<noteq> step_expiration_descending countdown_store"
  proof
    assume "step_expiration countdown_store = step_expiration_descending countdown_store"
    then have "thread_labels (state_after step_expiration countdown_store) 1
        = thread_labels (state_after step_expiration_descending countdown_store) 1"
      by (simp add: state_after_def)
    with a b show False by simp
  qed
  from a b c countdown_store_ok(4) show ?thesis by (simp add: at_most_one_bucket_def)
qed

text \<open>
  C2, amended. The result of the advance loop depends on the order of the buckets.
  In the order of the source, bucket 0 first and bucket N last, on a transport that
  does not fail and with a well-formed label list in which the countdown labels
  exist, \<open>step_expiration\<close> returns and has advanced every existing thread exactly
  once: the labels of a thread afterwards are the simultaneous one-step advance of
  the labels it held before (each bucket label replaced by the label of the bucket
  below, bucket 0 by the archived label with the inbox label removed).
\<close>

theorem step_expiration_advances_once:
  assumes "requests_left mb = None" "registry_ok mb" "countdown_ids mb L A"
  shows "step_expiration mb = Some (Inr (), map_threads (advance_once L A) mb)"
  using assms by (rule step_expiration_closed)

theorem step_expiration_advances_once_witness:
  "requests_left countdown_store = None \<and> registry_ok countdown_store
   \<and> countdown_ids countdown_store UserLabel (UserLabel 8)
   \<and> step_expiration countdown_store
       = Some (Inr (), map_threads (advance_once UserLabel (UserLabel 8)) countdown_store)"
  using countdown_store_ok(1,2) countdown_store_ids
    step_expiration_advances_once[OF countdown_store_ok(1,2) countdown_store_ids]
  by (intro conjI)

subsection \<open>The passes and the invariants\<close>

lemma at_most_one_bucket_ids:
  assumes "registry_ok mb" "countdown_ids mb L A"
  shows "at_most_one_bucket mb \<longleftrightarrow> (\<forall>t \<in> set (thread_ids mb). one_bucket_in L (thread_labels mb t))"
  unfolding at_most_one_bucket_def using buckets_held_ids[OF assms] by simp

lemma at_most_one_countdown_ids:
  assumes "registry_ok mb" "countdown_ids mb L A"
  shows "at_most_one_countdown_label mb
    \<longleftrightarrow> (\<forall>t \<in> set (thread_ids mb). one_countdown_in L A (thread_labels mb t))"
  unfolding at_most_one_countdown_label_def using countdown_held_ids[OF assms] by simp

lemma admission_keeps_one_bucket:
  assumes nf: "requests_left mb = None" and reg: "registry_ok mb" and ids: "countdown_ids mb L A"
    and inv: "at_most_one_bucket mb"
  shows "\<exists>mb'. add_inbox_expiration mb = Some (Inr (), mb') \<and> at_most_one_bucket mb'"
proof -
  let ?mb' = "mb\<lparr>thread_labels := (\<lambda>t. if t \<in> set (search mb admission_query)
                 then insert (L INBOX_DAYS) (thread_labels mb t) else thread_labels mb t)\<rparr>"
  have l: "find_label_id mb (x_name INBOX_DAYS) = Some (L INBOX_DAYS)"
    by (rule countdown_ids_bucket[OF ids]) simp
  have run: "add_inbox_expiration mb = Some (Inr (), ?mb')"
    by (rule add_inbox_expiration_ok[OF nf l])
  have reg': "registry_ok ?mb'" and ids': "countdown_ids ?mb' L A" using reg ids by simp_all
  have "one_bucket_in L (thread_labels ?mb' t)" if t: "t \<in> set (thread_ids mb)" for t
  proof (cases "t \<in> set (search mb admission_query)")
    case True
    then have "\<forall>i \<le> INBOX_DAYS. L i \<notin> thread_labels mb t"
      unfolding admission_matches using has_bucket_iff[OF reg ids] by simp
    from one_bucket_in_admitted[OF reg ids this] True show ?thesis by simp
  next
    case False
    with inv t show ?thesis unfolding at_most_one_bucket_ids[OF reg ids] by simp
  qed
  then have "at_most_one_bucket ?mb'" unfolding at_most_one_bucket_ids[OF reg' ids'] by simp
  with run show ?thesis by blast
qed

lemma step_keeps_invariants:
  assumes nf: "requests_left mb = None" and reg: "registry_ok mb" and ids: "countdown_ids mb L A"
  shows "at_most_one_bucket mb \<Longrightarrow>
      \<exists>mb'. step_expiration mb = Some (Inr (), mb') \<and> at_most_one_bucket mb'"
    and "at_most_one_countdown_label mb \<Longrightarrow>
      \<exists>mb'. step_expiration mb = Some (Inr (), mb') \<and> at_most_one_countdown_label mb'"
proof -
  let ?mb' = "map_threads (advance_once L A) mb"
  have run: "step_expiration mb = Some (Inr (), ?mb')"
    by (rule step_expiration_closed[OF nf reg ids])
  have reg': "registry_ok ?mb'" and ids': "countdown_ids ?mb' L A" using reg ids by simp_all
  {
    assume "at_most_one_bucket mb"
    then have "at_most_one_bucket ?mb'"
      unfolding at_most_one_bucket_ids[OF reg ids] at_most_one_bucket_ids[OF reg' ids']
      using one_bucket_in_advance[OF reg ids] by simp
    with run show "\<exists>mb'. step_expiration mb = Some (Inr (), mb') \<and> at_most_one_bucket mb'" by blast
  }
  {
    assume "at_most_one_countdown_label mb"
    then have "at_most_one_countdown_label ?mb'"
      unfolding at_most_one_countdown_ids[OF reg ids] at_most_one_countdown_ids[OF reg' ids']
      using one_countdown_in_advance[OF reg ids] by simp
    with run show "\<exists>mb'. step_expiration mb = Some (Inr (), mb') \<and> at_most_one_countdown_label mb'"
      by blast
  }
qed

lemma strip_keeps_invariants:
  assumes nf: "requests_left mb = None" and reg: "registry_ok mb" and ids: "countdown_ids mb L A"
  shows "at_most_one_bucket mb \<Longrightarrow>
      \<exists>mb'. strip_tags_on_archived_emails mb = Some (Inr (), mb') \<and> at_most_one_bucket mb'"
    and "at_most_one_countdown_label mb \<Longrightarrow>
      \<exists>mb'. strip_tags_on_archived_emails mb = Some (Inr (), mb') \<and> at_most_one_countdown_label mb'"
proof -
  let ?g = "fold (strip_bucket L) [0..<INBOX_DAYS + 1]"
  let ?mb' = "map_threads ?g mb"
  have run: "strip_tags_on_archived_emails mb = Some (Inr (), ?mb')"
    by (rule strip_tags_closed[OF nf reg ids])
  have reg': "registry_ok ?mb'" and ids': "countdown_ids ?mb' L A" using reg ids by simp_all
  have sub: "\<And>S. ?g S \<subseteq> S" by (rule fold_strip_subset)
  {
    assume "at_most_one_bucket mb"
    then have "at_most_one_bucket ?mb'"
      unfolding at_most_one_bucket_ids[OF reg ids] at_most_one_bucket_ids[OF reg' ids']
      using one_bucket_in_subset[OF sub] by simp
    with run show "\<exists>mb'. strip_tags_on_archived_emails mb = Some (Inr (), mb') \<and> at_most_one_bucket mb'"
      by blast
  }
  {
    assume "at_most_one_countdown_label mb"
    then have "at_most_one_countdown_label ?mb'"
      unfolding at_most_one_countdown_ids[OF reg ids] at_most_one_countdown_ids[OF reg' ids']
      using one_countdown_in_subset[OF sub] by simp
    with run show "\<exists>mb'. strip_tags_on_archived_emails mb = Some (Inr (), mb')
        \<and> at_most_one_countdown_label mb'"
      by blast
  }
qed

text \<open>
  C3, as stated, fails for \<open>add_inbox_expiration\<close>. In \<open>rearrived_store\<close> the only
  thread is in the inbox, is not starred and holds the archived label and no bucket
  label, so it holds one countdown label. The query of the admission pass excludes
  the bucket labels only; the pass attaches bucket N, and the thread then holds a
  bucket together with the archived label.
\<close>

theorem admission_joins_bucket_and_archived:
  "at_most_one_countdown_label rearrived_store
   \<and> countdown_labels_held rearrived_store 1 = [''auto-archived'']
   \<and> add_inbox_expiration rearrived_store
       = Some (Inr (), rearrived_store\<lparr>thread_labels :=
            (\<lambda>_. {})(1 := {INBOX, UserLabel 7, UserLabel 8})\<rparr>)
   \<and> countdown_labels_held (state_after add_inbox_expiration rearrived_store) 1
       = [''x7'', ''auto-archived'']
   \<and> \<not> at_most_one_countdown_label (state_after add_inbox_expiration rearrived_store)"
proof -
  have names: "map x_name [0..<INBOX_DAYS + 1] = [''x0'', ''x1'', ''x2'', ''x3'', ''x4'', ''x5'', ''x6'', ''x7'']"
    unfolding bucket_list by (simp add: x_name_def str_int_def str_nat.simps digit_char_def)
  have held: "countdown_labels_held rearrived_store 1 = [''auto-archived'']"
    unfolding countdown_labels_held_def names
    by (simp add: has_label_named_def rearrived_store_def countdown_labels_def)
  have q: "search rearrived_store admission_query = [1]"
    unfolding search_def admission_query_def bucket_list
    by (simp add: has_label_named_def rearrived_store_def countdown_labels_def
        x_name_def str_int_def str_nat.simps digit_char_def)
  have l: "find_label_id rearrived_store (x_name INBOX_DAYS) = Some (UserLabel 7)"
    using countdown_ids_bucket[OF rearrived_store_ok(3), of INBOX_DAYS] by (simp add: INBOX_DAYS_def)
  have "(\<lambda>t. if t \<in> set [1::nat] then insert (UserLabel 7) (thread_labels rearrived_store t)
            else thread_labels rearrived_store t)
      = (\<lambda>_. {})(1 := {INBOX, UserLabel 7, UserLabel 8})"
    by (auto simp: fun_eq_iff rearrived_store_def)
  with add_inbox_expiration_ok[OF rearrived_store_ok(1) l]
  have run: "add_inbox_expiration rearrived_store
       = Some (Inr (), rearrived_store\<lparr>thread_labels :=
            (\<lambda>_. {})(1 := {INBOX, UserLabel 7, UserLabel 8})\<rparr>)"
    by (simp only: q)
  have held': "countdown_labels_held (state_after add_inbox_expiration rearrived_store) 1
       = [''x7'', ''auto-archived'']"
    unfolding countdown_labels_held_def names state_after_def run
    by (simp add: has_label_named_def rearrived_store_def countdown_labels_def)
  have before: "at_most_one_countdown_label rearrived_store"
    unfolding at_most_one_countdown_label_def using held by (simp add: rearrived_store_def)
  have after: "\<not> at_most_one_countdown_label (state_after add_inbox_expiration rearrived_store)"
  proof
    assume "at_most_one_countdown_label (state_after add_inbox_expiration rearrived_store)"
    moreover have "thread_ids (state_after add_inbox_expiration rearrived_store) = [1]"
      by (simp only: state_after_def run option.case prod.case) (simp add: rearrived_store_def)
    ultimately have "length (countdown_labels_held (state_after add_inbox_expiration rearrived_store) 1) \<le> 1"
      unfolding at_most_one_countdown_label_def by simp
    with held' show False by simp
  qed
  from before held run held' after show ?thesis by simp
qed

text \<open>
  C3, amended. On a transport that does not fail, with a well-formed label list in
  which the countdown labels exist: each of \<open>add_inbox_expiration\<close>,
  \<open>step_expiration\<close> and \<open>strip_tags_on_archived_emails\<close> returns and keeps every
  thread at no more than one bucket label; \<open>step_expiration\<close> and
  \<open>strip_tags_on_archived_emails\<close> moreover keep every thread at no more than one of
  the bucket labels and the archived label.
\<close>

theorem countdown_invariants_preserved:
  assumes nf: "requests_left mb = None" and reg: "registry_ok mb" and ready: "countdown_ready mb"
  shows "(at_most_one_bucket mb \<longrightarrow>
            (\<exists>mb'. add_inbox_expiration mb = Some (Inr (), mb') \<and> at_most_one_bucket mb'))
    \<and> (at_most_one_bucket mb \<longrightarrow>
            (\<exists>mb'. step_expiration mb = Some (Inr (), mb') \<and> at_most_one_bucket mb'))
    \<and> (at_most_one_bucket mb \<longrightarrow>
            (\<exists>mb'. strip_tags_on_archived_emails mb = Some (Inr (), mb') \<and> at_most_one_bucket mb'))
    \<and> (at_most_one_countdown_label mb \<longrightarrow>
            (\<exists>mb'. step_expiration mb = Some (Inr (), mb') \<and> at_most_one_countdown_label mb'))
    \<and> (at_most_one_countdown_label mb \<longrightarrow>
            (\<exists>mb'. strip_tags_on_archived_emails mb = Some (Inr (), mb')
                \<and> at_most_one_countdown_label mb'))"
proof -
  from countdown_ids_exist[OF ready] obtain L A where ids: "countdown_ids mb L A" by blast
  show ?thesis
    using admission_keeps_one_bucket[OF nf reg ids] step_keeps_invariants[OF nf reg ids]
      strip_keeps_invariants[OF nf reg ids]
    by (intro conjI impI)
qed

theorem countdown_invariants_preserved_witness:
  "requests_left countdown_store = None \<and> registry_ok countdown_store
   \<and> countdown_ready countdown_store
   \<and> at_most_one_bucket countdown_store \<and> at_most_one_countdown_label countdown_store
   \<and> (\<exists>mb'. add_inbox_expiration countdown_store = Some (Inr (), mb') \<and> at_most_one_bucket mb')
   \<and> (\<exists>mb'. step_expiration countdown_store = Some (Inr (), mb') \<and> at_most_one_bucket mb')
   \<and> (\<exists>mb'. strip_tags_on_archived_emails countdown_store = Some (Inr (), mb')
          \<and> at_most_one_bucket mb')
   \<and> (\<exists>mb'. step_expiration countdown_store = Some (Inr (), mb')
          \<and> at_most_one_countdown_label mb')
   \<and> (\<exists>mb'. strip_tags_on_archived_emails countdown_store = Some (Inr (), mb')
          \<and> at_most_one_countdown_label mb')"
proof -
  have b: "at_most_one_bucket countdown_store"
    using countdown_store_ok(4) by (simp add: at_most_one_bucket_def)
  have names: "map x_name [0..<INBOX_DAYS + 1] = [''x0'', ''x1'', ''x2'', ''x3'', ''x4'', ''x5'', ''x6'', ''x7'']"
    unfolding bucket_list by (simp add: x_name_def str_int_def str_nat.simps digit_char_def)
  have c: "at_most_one_countdown_label countdown_store"
    unfolding at_most_one_countdown_label_def countdown_labels_held_def names
    by (simp add: has_label_named_def countdown_store_def countdown_labels_def)
  from countdown_invariants_preserved[OF countdown_store_ok(1,2,3)] b c countdown_store_ok(1,2,3)
  show ?thesis by blast
qed

subsection \<open>The age labels\<close>

lemma labels_create_ok:
  "requests_left mb = None \<Longrightarrow> name \<notin> set (map label_name (all_labels mb)) \<Longrightarrow>
   labels_create name mb =
     Some (Inr \<lparr>label_name = name, label_ident = fresh_label_id (all_labels mb)\<rparr>,
           mb\<lparr>all_labels := all_labels mb
                  @ [\<lparr>label_name = name, label_ident = fresh_label_id (all_labels mb)\<rparr>]\<rparr>)"
  by (simp add: labels_create_def execute_ok Let_def)

lemma labels_delete_ok:
  "requests_left mb = None \<Longrightarrow> i \<noteq> INBOX \<Longrightarrow> i \<noteq> STARRED \<Longrightarrow>
   i \<in> set (map label_ident (all_labels mb)) \<Longrightarrow>
   labels_delete i mb =
     Some (Inr (), mb\<lparr>all_labels := filter (\<lambda>l. label_ident l \<noteq> i) (all_labels mb),
                      thread_labels := (\<lambda>t. thread_labels mb t - {i})\<rparr>)"
  by (simp add: labels_delete_def execute_ok)

lemma find_by_name:
  "find (\<lambda>l. label_name l = n) ls = None \<longleftrightarrow> n \<notin> set (map label_name ls)"
  "find (\<lambda>l. label_name l = n) ls = Some l \<Longrightarrow> l \<in> set ls \<and> label_name l = n"
  by (auto simp: find_None_iff find_Some_iff)

lemma find_snoc:
  "find P (xs @ [x]) = (case find P xs of Some y \<Rightarrow> Some y | None \<Rightarrow> if P x then Some x else None)"
  by (induction xs) auto

lemma add_age_label_found:
  assumes nf: "requests_left mb = None" and t: "t \<in> set (thread_ids mb)"
    and l: "find (\<lambda>l. label_name l = LABEL_PREFIX @ age_string age) (all_labels mb) = Some l"
  shows "add_age_label t age mb =
    Some (Inr (), mb\<lparr>thread_labels := (thread_labels mb)(t := insert (label_ident l) (thread_labels mb t))\<rparr>)"
proof -
  have v: "valid_label_id mb (Some (label_ident l))"
    using find_by_name(2)[OF l] by (auto simp: valid_label_id_def)
  have g: "get_or_create_label (LABEL_PREFIX @ age_string age) mb = Some (Inr (label_ident l), mb)"
    by (simp add: get_or_create_label_def get_all_labels_def io_bind_def labels_list_ok[OF nf] l
        io_return_def)
  have m: "threads_modify t [Some (label_ident l)] [] mb =
    Some (Inr (), mb\<lparr>thread_labels := (thread_labels mb)(t := insert (label_ident l) (thread_labels mb t))\<rparr>)"
    using nf t v by (subst threads_modify_ok) (auto simp: modified_labels_def)
  show ?thesis
    using g m by (simp add: add_age_label_def Let_def io_bind_def)
qed

lemma fresh_label_id_new: "fresh_label_id ls \<notin> set (map label_ident ls)"
proof -
  have le: "\<And>n xs (a::nat). n \<in> set xs \<Longrightarrow> n \<le> fold max xs a"
  proof -
    fix n xs and a :: nat
    have "a \<le> fold max xs a \<and> (\<forall>n \<in> set xs. n \<le> fold max xs a)"
    proof (induction xs arbitrary: a)
      case Nil
      show ?case by simp
    next
      case (Cons x xs)
      from Cons.IH[of "max x a"] show ?case by auto
    qed
    then show "n \<in> set xs \<Longrightarrow> n \<le> fold max xs a" by blast
  qed
  show ?thesis
  proof
    assume "fresh_label_id ls \<in> set (map label_ident ls)"
    then obtain l where l: "l \<in> set ls"
        "label_ident l = UserLabel (Suc (fold max (map (\<lambda>l. label_number (label_ident l)) ls) 0))"
      by (auto simp: fresh_label_id_def)
    from l(1) have "label_number (label_ident l) \<in> set (map (\<lambda>l. label_number (label_ident l)) ls)"
      by auto
    from le[OF this, of 0] l(2) show False by (simp add: label_number_def)
  qed
qed

lemma fresh_label_id_user [simp]:
  "fresh_label_id ls \<noteq> INBOX" "fresh_label_id ls \<noteq> STARRED"
  by (simp_all add: fresh_label_id_def)

lemma add_age_label_created:
  assumes nf: "requests_left mb = None" and t: "t \<in> set (thread_ids mb)"
    and l: "find (\<lambda>l. label_name l = LABEL_PREFIX @ age_string age) (all_labels mb) = None"
  shows "add_age_label t age mb =
    Some (Inr (), mb\<lparr>all_labels := all_labels mb
                        @ [\<lparr>label_name = LABEL_PREFIX @ age_string age,
                            label_ident = fresh_label_id (all_labels mb)\<rparr>],
                     thread_labels := (thread_labels mb)
                        (t := insert (fresh_label_id (all_labels mb)) (thread_labels mb t))\<rparr>)"
proof -
  let ?l = "\<lparr>label_name = LABEL_PREFIX @ age_string age, label_ident = fresh_label_id (all_labels mb)\<rparr>"
  let ?mb1 = "mb\<lparr>all_labels := all_labels mb @ [?l]\<rparr>"
  have c: "labels_create (LABEL_PREFIX @ age_string age) mb = Some (Inr ?l, ?mb1)"
    using l by (intro labels_create_ok[OF nf]) (simp add: find_by_name(1))
  have g: "get_or_create_label (LABEL_PREFIX @ age_string age) mb
      = Some (Inr (fresh_label_id (all_labels mb)), ?mb1)"
    by (simp add: get_or_create_label_def get_all_labels_def io_bind_def labels_list_ok[OF nf] l c
        io_return_def)
  have m: "threads_modify t [Some (fresh_label_id (all_labels mb))] [] ?mb1 =
    Some (Inr (), ?mb1\<lparr>thread_labels := (thread_labels ?mb1)
            (t := insert (fresh_label_id (all_labels mb)) (thread_labels ?mb1 t))\<rparr>)"
    using nf t by (subst threads_modify_ok) (auto simp: modified_labels_def valid_label_id_def)
  show ?thesis
    using g m by (simp add: add_age_label_def Let_def io_bind_def)
qed

lemma annotate_thread_unfold:
  assumes nf: "requests_left mb = None" and t: "t \<in> set (thread_ids mb)"
  shows "annotate_thread now t mb =
    (if thread_messages mb t \<noteq> [] \<and> MIN_AGE_TO_APPEND_LABEL \<le> thread_age mb now t
     then add_age_label t (thread_age mb now t) mb else Some (Inr (), mb))"
  unfolding annotate_thread_def
  by (simp add: io_bind_def threads_get_ok[OF nf t] Let_def thread_age_def io_return_def)

lemma attaches_add_age_label:
  assumes nf: "requests_left mb = None" and t: "t \<in> set (thread_ids mb)"
  shows "attaches (add_age_label t age) mb t (LABEL_PREFIX @ age_string age)"
proof (cases "find (\<lambda>l. label_name l = LABEL_PREFIX @ age_string age) (all_labels mb)")
  case None
  then have "find (\<lambda>l. label_name l = LABEL_PREFIX @ age_string age)
      (all_labels mb @ [\<lparr>label_name = LABEL_PREFIX @ age_string age,
                            label_ident = fresh_label_id (all_labels mb)\<rparr>])
    = Some \<lparr>label_name = LABEL_PREFIX @ age_string age, label_ident = fresh_label_id (all_labels mb)\<rparr>"
    by (simp add: find_snoc)
  then show ?thesis
    unfolding attaches_def by (simp add: add_age_label_created[OF nf t None])
next
  case (Some l)
  then show ?thesis
    unfolding attaches_def by (simp add: add_age_label_found[OF nf t Some])
qed

lemma age_strings:
  "age_string 21 = ''21d''" "age_string 30 = ''30d''" "age_string 31 = ''1m''"
  "age_string 364 = ''12m''" "age_string 365 = ''1y''"
  by (simp_all add: age_string_def str_int_def str_nat.simps digit_char_def py_round_def Let_def)

text \<open>
  C5. Age classification boundaries. For an existing thread with at least one
  message, on a transport that does not fail, the annotator's step for that thread
  returns leaving the store as it is when the thread's age in whole days is 20, and
  attaches to the thread the label named by \<open>LABEL_PREFIX\<close> followed by "21d" when the
  age is 21, "30d" when it is 30, "1m" when it is 31, "12m" when it is 364 and "1y"
  when it is 365; the number of a month label is \<open>round(age / 31)\<close> and that of a year
  label \<open>round(age / 365)\<close>.
\<close>

theorem age_classification_boundaries:
  assumes nf: "requests_left mb = None" and t: "t \<in> set (thread_ids mb)"
    and msgs: "thread_messages mb t \<noteq> []"
  shows "(thread_age mb now t = 20 \<longrightarrow> annotate_thread now t mb = Some (Inr (), mb))
    \<and> (thread_age mb now t = 21 \<longrightarrow> attaches (annotate_thread now t) mb t (LABEL_PREFIX @ ''21d''))
    \<and> (thread_age mb now t = 30 \<longrightarrow> attaches (annotate_thread now t) mb t (LABEL_PREFIX @ ''30d''))
    \<and> (thread_age mb now t = 31 \<longrightarrow> attaches (annotate_thread now t) mb t (LABEL_PREFIX @ ''1m''))
    \<and> (thread_age mb now t = 364 \<longrightarrow> attaches (annotate_thread now t) mb t (LABEL_PREFIX @ ''12m''))
    \<and> (thread_age mb now t = 365 \<longrightarrow> attaches (annotate_thread now t) mb t (LABEL_PREFIX @ ''1y''))
    \<and> (31 \<le> age \<and> age < 365 \<longrightarrow> age_string age = str_int (py_round (real_of_int age / 31)) @ ''m'')
    \<and> (365 \<le> age \<longrightarrow> age_string age = str_int (py_round (real_of_int age / 365)) @ ''y'')"
proof -
  have a: "attaches (annotate_thread now t) mb t (LABEL_PREFIX @ age_string (thread_age mb now t))"
    if "MIN_AGE_TO_APPEND_LABEL \<le> thread_age mb now t"
  proof -
    have "annotate_thread now t mb = add_age_label t (thread_age mb now t) mb"
      using that msgs by (simp add: annotate_thread_unfold[OF nf t])
    then show ?thesis
      using attaches_add_age_label[OF nf t, of "thread_age mb now t"] by (simp add: attaches_def)
  qed
  have skip: "thread_age mb now t = 20 \<longrightarrow> annotate_thread now t mb = Some (Inr (), mb)"
    by (simp add: annotate_thread_unfold[OF nf t] MIN_AGE_TO_APPEND_LABEL_def)
  have "thread_age mb now t = k \<Longrightarrow> 21 \<le> k \<Longrightarrow>
      attaches (annotate_thread now t) mb t (LABEL_PREFIX @ age_string k)" for k
    using a by (simp add: MIN_AGE_TO_APPEND_LABEL_def)
  from this[of 21] this[of 30] this[of 31] this[of 364] this[of 365] skip
  show ?thesis by (simp add: age_strings) (simp add: age_string_def)
qed

lemma aged_store_ages:
  "thread_age aged_store aged_now 1 = 20" "thread_age aged_store aged_now 2 = 21"
  "thread_age aged_store aged_now 3 = 30" "thread_age aged_store aged_now 4 = 31"
  "thread_age aged_store aged_now 5 = 364" "thread_age aged_store aged_now 6 = 365"
  by (simp_all add: thread_age_def aged_store_def aged_now_def date_diff_in_days_def
      timedelta_days_def datetime_to_date_def fromtimestamp_ms_def us_per_day_def)

theorem age_classification_boundaries_witness:
  "requests_left aged_store = None
   \<and> thread_age aged_store aged_now 1 = 20
   \<and> annotate_thread aged_now 1 aged_store = Some (Inr (), aged_store)
   \<and> thread_age aged_store aged_now 2 = 21
   \<and> attaches (annotate_thread aged_now 2) aged_store 2 (LABEL_PREFIX @ ''21d'')
   \<and> thread_age aged_store aged_now 3 = 30
   \<and> attaches (annotate_thread aged_now 3) aged_store 3 (LABEL_PREFIX @ ''30d'')
   \<and> thread_age aged_store aged_now 4 = 31
   \<and> attaches (annotate_thread aged_now 4) aged_store 4 (LABEL_PREFIX @ ''1m'')
   \<and> thread_age aged_store aged_now 5 = 364
   \<and> attaches (annotate_thread aged_now 5) aged_store 5 (LABEL_PREFIX @ ''12m'')
   \<and> thread_age aged_store aged_now 6 = 365
   \<and> attaches (annotate_thread aged_now 6) aged_store 6 (LABEL_PREFIX @ ''1y'')
   \<and> age_string 364 = str_int (py_round (real_of_int 364 / 31)) @ ''m''
   \<and> age_string 365 = str_int (py_round (real_of_int 365 / 365)) @ ''y''"
proof -
  have nf: "requests_left aged_store = None" by (simp add: aged_store_def)
  have ts: "1 \<in> set (thread_ids aged_store)" "2 \<in> set (thread_ids aged_store)"
    "3 \<in> set (thread_ids aged_store)" "4 \<in> set (thread_ids aged_store)"
    "5 \<in> set (thread_ids aged_store)" "6 \<in> set (thread_ids aged_store)"
    by (simp_all add: aged_store_def)
  have ms: "thread_messages aged_store 1 \<noteq> []" "thread_messages aged_store 2 \<noteq> []"
    "thread_messages aged_store 3 \<noteq> []" "thread_messages aged_store 4 \<noteq> []"
    "thread_messages aged_store 5 \<noteq> []" "thread_messages aged_store 6 \<noteq> []"
    by (simp_all add: aged_store_def)
  note a = aged_store_ages
  note T1 = age_classification_boundaries[OF nf ts(1) ms(1), of aged_now 364]
  note T2 = age_classification_boundaries[OF nf ts(2) ms(2), of aged_now 365]
  note T3 = age_classification_boundaries[OF nf ts(3) ms(3), of aged_now 364]
  note T4 = age_classification_boundaries[OF nf ts(4) ms(4), of aged_now 364]
  note T5 = age_classification_boundaries[OF nf ts(5) ms(5), of aged_now 364]
  note T6 = age_classification_boundaries[OF nf ts(6) ms(6), of aged_now 364]
  have c1: "annotate_thread aged_now 1 aged_store = Some (Inr (), aged_store)"
    by (rule mp[OF T1[THEN conjunct1] a(1)])
  have c2: "attaches (annotate_thread aged_now 2) aged_store 2 (LABEL_PREFIX @ ''21d'')"
    by (rule mp[OF T2[THEN conjunct2, THEN conjunct1] a(2)])
  have c3: "attaches (annotate_thread aged_now 3) aged_store 3 (LABEL_PREFIX @ ''30d'')"
    by (rule mp[OF T3[THEN conjunct2, THEN conjunct2, THEN conjunct1] a(3)])
  have c4: "attaches (annotate_thread aged_now 4) aged_store 4 (LABEL_PREFIX @ ''1m'')"
    by (rule mp[OF T4[THEN conjunct2, THEN conjunct2, THEN conjunct2, THEN conjunct1] a(4)])
  have c5: "attaches (annotate_thread aged_now 5) aged_store 5 (LABEL_PREFIX @ ''12m'')"
    by (rule mp[OF T5[THEN conjunct2, THEN conjunct2, THEN conjunct2, THEN conjunct2,
          THEN conjunct1] a(5)])
  have c6: "attaches (annotate_thread aged_now 6) aged_store 6 (LABEL_PREFIX @ ''1y'')"
    by (rule mp[OF T6[THEN conjunct2, THEN conjunct2, THEN conjunct2, THEN conjunct2,
          THEN conjunct2, THEN conjunct1] a(6)])
  have r1: "(31::int) \<le> 364 \<and> (364::int) < 365" by simp
  have r2: "(365::int) \<le> 365" by simp
  have c7: "age_string 364 = str_int (py_round (real_of_int 364 / 31)) @ ''m''"
    by (rule mp[OF T1[THEN conjunct2, THEN conjunct2, THEN conjunct2, THEN conjunct2,
          THEN conjunct2, THEN conjunct2, THEN conjunct1] r1])
  have c8: "age_string 365 = str_int (py_round (real_of_int 365 / 365)) @ ''y''"
    by (rule mp[OF T2[THEN conjunct2, THEN conjunct2, THEN conjunct2, THEN conjunct2,
          THEN conjunct2, THEN conjunct2, THEN conjunct2] r2])
  show ?thesis
    by (intro conjI nf a c1 c2 c3 c4 c5 c6 c7 c8)
qed

subsection \<open>The sweep\<close>

lemma for_each_delete:
  assumes nf: "requests_left mb = None"
    and d: "distinct (map label_ident (all_labels mb))"
    and sub: "set ds \<subseteq> set (all_labels mb)" and dd: "distinct ds"
    and sys: "\<forall>l \<in> set ds. label_ident l \<noteq> INBOX \<and> label_ident l \<noteq> STARRED"
  shows "for_each ds (\<lambda>l. labels_delete (label_ident l)) mb =
    Some (Inr (), mb\<lparr>all_labels := filter (\<lambda>l. label_ident l \<notin> set (map label_ident ds)) (all_labels mb),
                     thread_labels := (\<lambda>t. thread_labels mb t - set (map label_ident ds))\<rparr>)"
  using assms
proof (induction ds arbitrary: mb)
  case Nil
  then show ?case by (simp add: io_return_def)
next
  case (Cons l ds)
  let ?i = "label_ident l"
  let ?mb1 = "mb\<lparr>all_labels := filter (\<lambda>l. label_ident l \<noteq> ?i) (all_labels mb),
                 thread_labels := (\<lambda>t. thread_labels mb t - {?i})\<rparr>"
  have l: "l \<in> set (all_labels mb)" using Cons.prems(3) by simp
  have del: "labels_delete ?i mb = Some (Inr (), ?mb1)"
    using Cons.prems(1,5) l by (intro labels_delete_ok) auto
  have inj: "inj_on label_ident (set (all_labels mb))"
    using Cons.prems(2) by (simp add: distinct_map)
  have keep: "\<And>l'. l' \<in> set ds \<Longrightarrow> label_ident l' \<noteq> ?i"
  proof
    fix l' assume l': "l' \<in> set ds" and e: "label_ident l' = ?i"
    then have "l' \<in> set (all_labels mb)" using Cons.prems(3) by auto
    with inj l e have "l' = l" by (auto dest: inj_onD)
    with l' Cons.prems(4) show False by simp
  qed
  have ih: "for_each ds (\<lambda>l. labels_delete (label_ident l)) ?mb1 =
    Some (Inr (), ?mb1\<lparr>all_labels := filter (\<lambda>l. label_ident l \<notin> set (map label_ident ds)) (all_labels ?mb1),
                     thread_labels := (\<lambda>t. thread_labels ?mb1 t - set (map label_ident ds))\<rparr>)"
  proof (rule Cons.IH)
    show "requests_left ?mb1 = None" using Cons.prems(1) by simp
    show "distinct (map label_ident (all_labels ?mb1))"
      using Cons.prems(2) by (simp add: distinct_map_filter)
    show "set ds \<subseteq> set (all_labels ?mb1)" using Cons.prems(3) keep by auto
    show "distinct ds" using Cons.prems(4) by simp
    show "\<forall>l \<in> set ds. label_ident l \<noteq> INBOX \<and> label_ident l \<noteq> STARRED"
      using Cons.prems(5) by simp
  qed
  have a: "filter (\<lambda>l. label_ident l \<notin> set (map label_ident ds)) (all_labels ?mb1)
      = filter (\<lambda>l'. label_ident l' \<notin> set (map label_ident (l # ds))) (all_labels mb)"
    by (auto intro: filter_cong)
  have b: "(\<lambda>t. thread_labels ?mb1 t - set (map label_ident ds))
      = (\<lambda>t. thread_labels mb t - set (map label_ident (l # ds)))"
    by (auto simp: fun_eq_iff)
  have "for_each ds (\<lambda>l. labels_delete (label_ident l)) ?mb1 =
    Some (Inr (), mb\<lparr>all_labels := filter (\<lambda>l'. label_ident l' \<notin> set (map label_ident (l # ds))) (all_labels mb),
                     thread_labels := (\<lambda>t. thread_labels mb t - set (map label_ident (l # ds)))\<rparr>)"
    unfolding ih a b by simp
  with del show ?case
    by (simp only: for_each.simps io_bind_def option.case prod.case sum.case)
qed

lemma re_match_system [simp]:
  "\<not> age_label_re_match other_digit ''INBOX''" "\<not> age_label_re_match other_digit ''STARRED''"
  by simp_all

lemma remove_all_age_labels_ok:
  assumes nf: "requests_left mb = None" and reg: "registry_ok mb"
  shows "remove_all_age_labels other_digit mb = Some (Inr (), swept other_digit mb)"
proof -
  let ?m = "\<lambda>l. age_label_re_match other_digit (label_name l)"
  let ?ds = "filter ?m (all_labels mb)"
  have d: "distinct (map label_ident (all_labels mb))" using reg by (simp add: registry_ok_def)
  then have dl: "distinct (all_labels mb)" by (simp add: distinct_map)
  have sys: "\<forall>l \<in> set ?ds. label_ident l \<noteq> INBOX \<and> label_ident l \<noteq> STARRED"
    using reg by (auto simp: registry_ok_def)
  have run: "for_each ?ds (\<lambda>l. labels_delete (label_ident l)) mb =
    Some (Inr (), mb\<lparr>all_labels := filter (\<lambda>l. label_ident l \<notin> set (map label_ident ?ds)) (all_labels mb),
                     thread_labels := (\<lambda>t. thread_labels mb t - set (map label_ident ?ds))\<rparr>)"
    using dl sys by (intro for_each_delete[OF nf d]) auto
  have inj: "inj_on label_ident (set (all_labels mb))" using d by (simp add: distinct_map)
  have "filter (\<lambda>l. label_ident l \<notin> set (map label_ident ?ds)) (all_labels mb)
      = filter (\<lambda>l. \<not> ?m l) (all_labels mb)"
  proof (rule filter_cong[OF refl])
    fix l assume l: "l \<in> set (all_labels mb)"
    show "(label_ident l \<notin> set (map label_ident ?ds)) = (\<not> ?m l)"
    proof
      assume "label_ident l \<notin> set (map label_ident ?ds)"
      with l show "\<not> ?m l" by auto
    next
      assume n: "\<not> ?m l"
      show "label_ident l \<notin> set (map label_ident ?ds)"
      proof
        assume "label_ident l \<in> set (map label_ident ?ds)"
        then obtain l' where "l' \<in> set (all_labels mb)" "?m l'" "label_ident l' = label_ident l"
          by auto
        with inj l have "l' = l" by (auto dest: inj_onD)
        with \<open>?m l'\<close> n show False by simp
      qed
    qed
  qed
  with run have "for_each ?ds (\<lambda>l. labels_delete (label_ident l)) mb
      = Some (Inr (), swept other_digit mb)"
    by (simp only: swept_def)
  then show ?thesis
    unfolding remove_all_age_labels_def get_all_labels_def
    by (simp add: io_bind_def labels_list_ok[OF nf] Let_def)
qed

subsection \<open>The names of the age labels match the pattern of the sweep\<close>

lemma str_nat_head: "\<exists>c cs. str_nat n = c # cs \<and> c \<in> set ''0123456789''"
proof (induction n rule: str_nat.induct)
  case (1 n)
  show ?case
  proof (cases "n < 10")
    case True
    then have "digit_char n \<in> set ''0123456789''"
      unfolding digit_char_def by (intro nth_mem) simp
    with True show ?thesis by (subst str_nat.simps) simp
  next
    case False
    with 1 obtain c cs where "str_nat (n div 10) = c # cs" "c \<in> set ''0123456789''" by blast
    with False show ?thesis by (subst str_nat.simps) simp
  qed
qed

lemma py_round_nonneg: "0 \<le> x \<Longrightarrow> 0 \<le> py_round x"
proof -
  assume "0 \<le> x"
  then have "0 \<le> \<lfloor>x\<rfloor>" by simp
  then show ?thesis by (simp add: py_round_def Let_def)
qed

lemma age_string_head:
  assumes "0 \<le> age"
  shows "\<exists>c cs. age_string age = c # cs \<and> c \<in> set ''0123456789''"
proof -
  have k: "\<And>k s. 0 \<le> k \<Longrightarrow> \<exists>c cs. str_int k @ s = c # cs \<and> c \<in> set ''0123456789''"
  proof -
    fix k :: int and s assume "0 \<le> k"
    moreover obtain c cs where "str_nat (nat k) = c # cs" "c \<in> set ''0123456789''"
      using str_nat_head by blast
    ultimately show "\<exists>c cs. str_int k @ s = c # cs \<and> c \<in> set ''0123456789''"
      by (simp add: str_int_def)
  qed
  have "0 \<le> py_round (real_of_int age / 31)" "0 \<le> py_round (real_of_int age / 365)"
    using assms by (simp_all add: py_round_nonneg)
  with assms k show ?thesis unfolding age_string_def by (simp only: split: if_splits) auto
qed

lemma age_label_name_matches:
  assumes "0 \<le> age"
  shows "age_label_re_match other_digit (LABEL_PREFIX @ age_string age)"
proof -
  from age_string_head[OF assms] obtain c cs where
    "age_string age = c # cs" "c \<in> set ''0123456789''" by blast
  then show ?thesis
    by (simp add: LABEL_PREFIX_def hourglass_def starts_with_digit_def)
qed

lemma age_label_name_not_system:
  "LABEL_PREFIX @ s \<noteq> ''INBOX''" "LABEL_PREFIX @ s \<noteq> ''STARRED''"
  by (simp_all add: LABEL_PREFIX_def hourglass_def)

subsection \<open>One thread of the annotator\<close>

lemma annotate_thread_cases:
  assumes nf: "requests_left m = None" and t: "t \<in> set (thread_ids m)"
  obtains (skip) "\<not> (thread_messages m t \<noteq> [] \<and> MIN_AGE_TO_APPEND_LABEL \<le> thread_age m now t)"
      "annotate_thread now t m = Some (Inr (), m)"
    | (found) l where "thread_messages m t \<noteq> []" "MIN_AGE_TO_APPEND_LABEL \<le> thread_age m now t"
      "l \<in> set (all_labels m)" "label_name l = age_label_name m now t"
      "annotate_thread now t m = Some (Inr (), attach_label m t (label_ident l))"
    | (created) "thread_messages m t \<noteq> []" "MIN_AGE_TO_APPEND_LABEL \<le> thread_age m now t"
      "age_label_name m now t \<notin> set (map label_name (all_labels m))"
      "annotate_thread now t m
        = Some (Inr (), attach_label (add_label m (age_label_name m now t)) t
                          (fresh_label_id (all_labels m)))"
proof (cases "thread_messages m t \<noteq> [] \<and> MIN_AGE_TO_APPEND_LABEL \<le> thread_age m now t")
  case False
  then have "annotate_thread now t m = Some (Inr (), m)"
    by (simp only: annotate_thread_unfold[OF nf t] if_False)
  with False show ?thesis by (rule skip)
next
  case True
  then have u: "annotate_thread now t m = add_age_label t (thread_age m now t) m"
    by (simp add: annotate_thread_unfold[OF nf t])
  show ?thesis
  proof (cases "find (\<lambda>l. label_name l = LABEL_PREFIX @ age_string (thread_age m now t)) (all_labels m)")
    case None
    have "annotate_thread now t m
        = Some (Inr (), attach_label (add_label m (age_label_name m now t)) t
                          (fresh_label_id (all_labels m)))"
      unfolding u add_age_label_created[OF nf t None]
      by (simp add: attach_label_def add_label_def age_label_name_def)
    moreover have "age_label_name m now t \<notin> set (map label_name (all_labels m))"
      using None by (simp add: find_by_name(1) age_label_name_def)
    ultimately show ?thesis using True by (intro created) simp_all
  next
    case (Some l)
    have "annotate_thread now t m = Some (Inr (), attach_label m t (label_ident l))"
      unfolding u add_age_label_found[OF nf t Some] by (simp add: attach_label_def)
    moreover have "l \<in> set (all_labels m)" "label_name l = age_label_name m now t"
      using find_by_name(2)[OF Some] by (simp_all add: age_label_name_def)
    ultimately show ?thesis using True by (intro found[of l]) simp_all
  qed
qed

lemma for_each_invariant:
  assumes step: "\<And>x m. x \<in> set xs \<Longrightarrow> Inv m \<Longrightarrow> \<exists>m'. body x m = Some (Inr (), m') \<and> Inv m'"
  shows "Inv m \<Longrightarrow> \<exists>m'. for_each xs body m = Some (Inr (), m') \<and> Inv m'"
  using step
proof (induction xs arbitrary: m)
  case Nil
  then show ?case by (simp add: io_return_def)
next
  case (Cons x xs)
  from Cons.prems(2)[of x m] Cons.prems(1) obtain m1 where
    m1: "body x m = Some (Inr (), m1)" "Inv m1" by auto
  from Cons.IH[OF m1(2)] Cons.prems(2) obtain m' where
    "for_each xs body m1 = Some (Inr (), m')" "Inv m'" by auto
  with m1 show ?case by (auto simp: io_bind_def)
qed

subsection \<open>The annotator leaves the other labels alone\<close>

lemma registry_ok_attach [simp]: "registry_ok (attach_label m t i) = registry_ok m"
  by (simp add: attach_label_def)

lemma attach_label_simps [simp]:
  "requests_left (attach_label m t i) = requests_left m"
  "thread_ids (attach_label m t i) = thread_ids m"
  "thread_messages (attach_label m t i) = thread_messages m"
  "all_labels (attach_label m t i) = all_labels m"
  "thread_labels (attach_label m t i) t' = (if t' = t then insert i (thread_labels m t) else thread_labels m t')"
  by (simp_all add: attach_label_def)

lemma add_label_simps [simp]:
  "requests_left (add_label m n) = requests_left m"
  "thread_ids (add_label m n) = thread_ids m"
  "thread_messages (add_label m n) = thread_messages m"
  "thread_labels (add_label m n) = thread_labels m"
  "all_labels (add_label m n)
     = all_labels m @ [\<lparr>label_name = n, label_ident = fresh_label_id (all_labels m)\<rparr>]"
  by (simp_all add: add_label_def)

lemma registry_ok_add:
  assumes "registry_ok m" "n \<notin> set (map label_name (all_labels m))"
  shows "registry_ok (add_label m n)"
  using assms fresh_label_id_new[of "all_labels m"]
  by (auto simp: registry_ok_def)

lemma swept_simps [simp]:
  "requests_left (swept other_digit mb) = requests_left mb"
  "thread_ids (swept other_digit mb) = thread_ids mb"
  "thread_messages (swept other_digit mb) = thread_messages mb"
  "all_labels (swept other_digit mb)
     = filter (\<lambda>l. \<not> age_label_re_match other_digit (label_name l)) (all_labels mb)"
  "thread_labels (swept other_digit mb) t = thread_labels mb t
           - set (map label_ident
               (filter (\<lambda>l. age_label_re_match other_digit (label_name l)) (all_labels mb)))"
  by (simp_all add: swept_def)

lemma registry_ok_swept: "registry_ok mb \<Longrightarrow> registry_ok (swept other_digit mb)"
  by (auto simp: registry_ok_def distinct_map_filter)

lemma frame_swept:
  assumes reg: "registry_ok mb"
  shows "frame_of other_digit mb (swept other_digit mb)"
proof -
  have a: "label_ident l \<notin> set (map label_ident
               (filter (\<lambda>l. age_label_re_match other_digit (label_name l)) (all_labels mb)))"
    if "l \<in> set (all_labels mb)" "\<not> age_label_re_match other_digit (label_name l)" for l
  proof
    assume "label_ident l \<in> set (map label_ident
               (filter (\<lambda>l. age_label_re_match other_digit (label_name l)) (all_labels mb)))"
    then obtain l' where l': "l' \<in> set (all_labels mb)" "age_label_re_match other_digit (label_name l')"
        "label_ident l' = label_ident l" by auto
    with registry_same_ident[OF reg l'(1) that(1)] that(2) show False by auto
  qed
  have b: "x \<notin> set (map label_ident
               (filter (\<lambda>l. age_label_re_match other_digit (label_name l)) (all_labels mb)))"
    if "x = INBOX \<or> x = STARRED" for x
    using that reg by (auto simp: registry_ok_def)
  show ?thesis
    unfolding frame_of_def using a b by simp
qed

lemma frame_attach:
  assumes reg: "registry_ok m" and fr: "frame_of other_digit mb m"
    and l: "l \<in> set (all_labels m)" "age_label_re_match other_digit (label_name l)"
  shows "frame_of other_digit mb (attach_label m t (label_ident l))"
proof -
  have sys: "label_ident l \<noteq> INBOX" "label_ident l \<noteq> STARRED"
    using reg l by (auto simp: registry_ok_def)
  have other: "label_ident l0 \<noteq> label_ident l"
    if "l0 \<in> set (all_labels mb)" "\<not> age_label_re_match other_digit (label_name l0)" for l0
  proof -
    from that have "l0 \<in> set (filter (\<lambda>l. \<not> age_label_re_match other_digit (label_name l)) (all_labels mb))"
      by simp
    with fr have "l0 \<in> set (filter (\<lambda>l. \<not> age_label_re_match other_digit (label_name l)) (all_labels m))"
      by (simp only: frame_of_def)
    then have "l0 \<in> set (all_labels m)" by simp
    with registry_same_ident[OF reg this l(1)] l(2) that(2) show ?thesis by auto
  qed
  show ?thesis
    using fr sys other unfolding frame_of_def by (simp split: if_splits)
qed

lemma frame_add:
  assumes fr: "frame_of other_digit mb m" and n: "age_label_re_match other_digit n"
  shows "frame_of other_digit mb (add_label m n)"
  using fr n unfolding frame_of_def by simp

lemma annotate_thread_frame:
  assumes nf: "requests_left m = None" and reg: "registry_ok m" and fr: "frame_of other_digit mb m"
    and t: "t \<in> set (thread_ids m)"
  shows "\<exists>m'. annotate_thread now t m = Some (Inr (), m')
      \<and> requests_left m' = None \<and> registry_ok m' \<and> frame_of other_digit mb m'"
  using nf t
proof (cases rule: annotate_thread_cases[where now = now])
  case skip
  with nf reg fr show ?thesis by simp
next
  case (found l)
  have "age_label_re_match other_digit (label_name l)"
    using found(2,4) by (simp add: age_label_name_def age_label_name_matches
        MIN_AGE_TO_APPEND_LABEL_def)
  from frame_attach[OF reg fr found(3) this] found(5) nf reg show ?thesis by simp
next
  case created
  let ?n = "age_label_name m now t"
  have mt: "age_label_re_match other_digit ?n"
    using created(2) by (simp add: age_label_name_def age_label_name_matches
        MIN_AGE_TO_APPEND_LABEL_def)
  have reg1: "registry_ok (add_label m ?n)" by (rule registry_ok_add[OF reg created(3)])
  have fr1: "frame_of other_digit mb (add_label m ?n)" by (rule frame_add[OF fr mt])
  have "frame_of other_digit mb
      (attach_label (add_label m ?n) t (label_ident \<lparr>label_name = ?n, label_ident = fresh_label_id (all_labels m)\<rparr>))"
    by (rule frame_attach[OF reg1 fr1]) (simp_all add: mt)
  with created(4) nf reg1 show ?thesis by simp
qed

lemma append_too_old_labels_unfold:
  assumes nf: "requests_left mb = None" and reg: "registry_ok mb"
  shows "append_too_old_labels other_digit now mb
    = for_each (search (swept other_digit mb) [In_inbox]) (annotate_thread now) (swept other_digit mb)"
  unfolding append_too_old_labels_def
  using nf by (simp add: io_bind_def remove_all_age_labels_ok[OF nf reg] fetch_all_threads_ok)

lemma append_too_old_labels_frame:
  assumes nf: "requests_left mb = None" and reg: "registry_ok mb"
  shows "\<exists>mb'. append_too_old_labels other_digit now mb = Some (Inr (), mb')
      \<and> requests_left mb' = None \<and> registry_ok mb' \<and> frame_of other_digit mb mb'"
proof -
  let ?m0 = "swept other_digit mb"
  let ?Inv = "\<lambda>m. requests_left m = None \<and> registry_ok m \<and> frame_of other_digit mb m"
  have inv0: "?Inv ?m0" using nf registry_ok_swept[OF reg] frame_swept[OF reg] by simp
  have step: "\<And>t m. t \<in> set (search ?m0 [In_inbox]) \<Longrightarrow> ?Inv m \<Longrightarrow>
      \<exists>m'. annotate_thread now t m = Some (Inr (), m') \<and> ?Inv m'"
  proof -
    fix t and m :: mailbox
    assume t: "t \<in> set (search ?m0 [In_inbox])" and inv: "?Inv m"
    then have "t \<in> set (thread_ids m)"
      using search_subset[of ?m0 "[In_inbox]"] by (auto simp: frame_of_def)
    with inv annotate_thread_frame[of m other_digit mb t now]
    show "\<exists>m'. annotate_thread now t m = Some (Inr (), m') \<and> ?Inv m'" by blast
  qed
  have "\<exists>m'. for_each (search ?m0 [In_inbox]) (annotate_thread now) ?m0 = Some (Inr (), m') \<and> ?Inv m'"
  proof (rule for_each_invariant[where Inv = ?Inv])
    fix t and m :: mailbox
    assume "t \<in> set (search ?m0 [In_inbox])" "?Inv m"
    then show "\<exists>m'. annotate_thread now t m = Some (Inr (), m') \<and> ?Inv m'" by (rule step)
  next
    show "?Inv ?m0" by (rule inv0)
  qed
  then show ?thesis unfolding append_too_old_labels_unfold[OF nf reg] by blast
qed

lemma frame_label_unchanged:
  assumes fr: "frame_of other_digit mb m" and n: "\<not> age_label_re_match other_digit n"
  shows "label_unchanged mb m n"
proof -
  let ?keep = "\<lambda>l. \<not> age_label_re_match other_digit (label_name l)"
  have f: "filter ?keep (all_labels m) = filter ?keep (all_labels mb)"
    using fr by (simp add: frame_of_def)
  have "filter (\<lambda>l. label_name l = n) (all_labels m)
      = filter (\<lambda>l. label_name l = n) (filter ?keep (all_labels m))"
    using n by (auto simp: filter_filter intro: filter_cong)
  also have "\<dots> = filter (\<lambda>l. label_name l = n) (filter ?keep (all_labels mb))"
    by (simp only: f)
  also have "\<dots> = filter (\<lambda>l. label_name l = n) (all_labels mb)"
    using n by (auto simp: filter_filter intro: filter_cong)
  finally have 1: "filter (\<lambda>l. label_name l = n) (all_labels m)
      = filter (\<lambda>l. label_name l = n) (all_labels mb)" .
  then have same: "\<And>l. (l \<in> set (all_labels m) \<and> label_name l = n)
      \<longleftrightarrow> (l \<in> set (all_labels mb) \<and> label_name l = n)"
    by (metis (mono_tags, lifting) mem_Collect_eq set_filter)
  have held: "\<And>t l. l \<in> set (all_labels mb) \<Longrightarrow> label_name l = n \<Longrightarrow>
      label_ident l \<in> thread_labels m t \<longleftrightarrow> label_ident l \<in> thread_labels mb t"
    using fr n by (simp add: frame_of_def)
  have 2: "\<And>t. has_label_named m t n \<longleftrightarrow> has_label_named mb t n"
    unfolding has_label_named_def using same held by blast
  from 1 2 show ?thesis by (simp add: label_unchanged_def)
qed

lemma re_match_head:
  "age_label_re_match other_digit s \<Longrightarrow> \<exists>rest. s = CHR 0xE2 # rest"
  by (cases "(other_digit, s)" rule: age_label_re_match.cases) auto

lemma countdown_names_do_not_match:
  "\<not> age_label_re_match other_digit (x_name i)" "\<not> age_label_re_match other_digit ''auto-archived''"
  using re_match_head[of other_digit "x_name i"] by (auto simp: x_name_def)

text \<open>
  C8. The age-label sweep never touches countdown state. No name "x0", "x1", ... and
  not the name "auto-archived" matches the pattern of the sweep. On a transport that
  does not fail and with a well-formed label list, \<open>remove_all_age_labels\<close> and
  \<open>append_too_old_labels\<close> return, and in the store either leaves the labels of each
  of these names are the labels of that name before, held by the same threads.
\<close>

theorem sweep_spares_countdown_labels:
  assumes nf: "requests_left mb = None" and reg: "registry_ok mb"
  shows "(\<forall>i. \<not> age_label_re_match other_digit (x_name i))
    \<and> \<not> age_label_re_match other_digit ''auto-archived''
    \<and> (\<exists>mb'. remove_all_age_labels other_digit mb = Some (Inr (), mb')
          \<and> (\<forall>i. label_unchanged mb mb' (x_name i)) \<and> label_unchanged mb mb' ''auto-archived'')
    \<and> (\<exists>mb'. append_too_old_labels other_digit now mb = Some (Inr (), mb')
          \<and> (\<forall>i. label_unchanged mb mb' (x_name i)) \<and> label_unchanged mb mb' ''auto-archived'')"
proof -
  note nm = countdown_names_do_not_match[of other_digit]
  have 1: "\<exists>mb'. remove_all_age_labels other_digit mb = Some (Inr (), mb')
          \<and> (\<forall>i. label_unchanged mb mb' (x_name i)) \<and> label_unchanged mb mb' ''auto-archived''"
    using remove_all_age_labels_ok[OF nf reg, of other_digit]
      frame_label_unchanged[OF frame_swept[OF reg, of other_digit]] nm
    by blast
  from append_too_old_labels_frame[OF nf reg, of other_digit now] obtain mb' where
    r: "append_too_old_labels other_digit now mb = Some (Inr (), mb')"
    and fr: "frame_of other_digit mb mb'" by blast
  have 2: "\<exists>mb'. append_too_old_labels other_digit now mb = Some (Inr (), mb')
          \<and> (\<forall>i. label_unchanged mb mb' (x_name i)) \<and> label_unchanged mb mb' ''auto-archived''"
    using r frame_label_unchanged[OF fr] nm by blast
  from nm 1 2 show ?thesis by blast
qed

theorem sweep_spares_countdown_labels_witness:
  "requests_left countdown_store = None \<and> registry_ok countdown_store
    \<and> (\<forall>i. \<not> age_label_re_match (\<lambda>_. False) (x_name i))
    \<and> \<not> age_label_re_match (\<lambda>_. False) ''auto-archived''
    \<and> (\<exists>mb'. remove_all_age_labels (\<lambda>_. False) countdown_store = Some (Inr (), mb')
          \<and> (\<forall>i. label_unchanged countdown_store mb' (x_name i))
          \<and> label_unchanged countdown_store mb' ''auto-archived'')
    \<and> (\<exists>mb'. append_too_old_labels (\<lambda>_. False) aged_now countdown_store = Some (Inr (), mb')
          \<and> (\<forall>i. label_unchanged countdown_store mb' (x_name i))
          \<and> label_unchanged countdown_store mb' ''auto-archived'')"
  using countdown_store_ok(1,2)
    sweep_spares_countdown_labels[OF countdown_store_ok(1,2), of "\<lambda>_. False" aged_now]
  by (intro conjI) simp_all

subsection \<open>What the annotator attaches\<close>














subsection \<open>A transport that fails during the advance pass\<close>

lemma execute_served:
  "requests_left mb = Some (Suc n) \<Longrightarrow> execute h mb = Some (h (mb\<lparr>requests_left := Some n\<rparr>))"
  by (simp add: execute_def)

lemma execute_exhausted:
  "requests_left mb = Some 0 \<Longrightarrow> execute h mb = Some (Inl TransportError, mb)"
  by (simp add: execute_def)

lemma find_label_id_requests [simp]:
  "find_label_id (mb\<lparr>requests_left := b\<rparr>) n = find_label_id mb n"
  by (simp add: find_label_id_def)

lemma search_requests [simp]: "search (mb\<lparr>requests_left := b\<rparr>) q = search mb q"
proof -
  have "\<And>t x. matches (mb\<lparr>requests_left := b\<rparr>) t x = matches mb t x"
  proof -
    fix t x show "matches (mb\<lparr>requests_left := b\<rparr>) t x = matches mb t x"
      by (cases x) (simp_all add: has_label_named_def)
  qed
  then show ?thesis by (simp add: search_def)
qed

lemma get_label_id_served:
  "requests_left mb = Some (Suc n) \<Longrightarrow>
   get_label_id name mb = Some (Inr (find_label_id mb name), mb\<lparr>requests_left := Some n\<rparr>)"
  by (simp add: get_label_id_def io_bind_def labels_list_def execute_served io_return_def
      find_label_id_def)

lemma io_map_served:
  assumes f: "\<And>x (m::mailbox) k. requests_left m = Some (Suc k) \<Longrightarrow> all_labels m = all_labels mb \<Longrightarrow>
      f x m = Some (Inr (g x), m\<lparr>requests_left := Some k\<rparr>)"
  shows "requests_left m = Some (length xs + n) \<Longrightarrow> all_labels m = all_labels mb \<Longrightarrow>
    io_map f xs m = Some (Inr (map g xs), m\<lparr>requests_left := Some n\<rparr>)"
proof (induction xs arbitrary: m)
  case Nil
  then have "m\<lparr>requests_left := Some n\<rparr> = m" by simp
  then show ?case by (simp add: io_return_def)
next
  case (Cons x xs)
  have 1: "f x m = Some (Inr (g x), m\<lparr>requests_left := Some (length xs + n)\<rparr>)"
    using Cons.prems by (intro f) simp_all
  have 2: "io_map f xs (m\<lparr>requests_left := Some (length xs + n)\<rparr>)
      = Some (Inr (map g xs), m\<lparr>requests_left := Some (length xs + n)\<rparr>\<lparr>requests_left := Some n\<rparr>)"
    using Cons.prems by (intro Cons.IH) simp_all
  show ?case by (simp add: io_bind_def 1 2 io_return_def)
qed

lemma day_labels_served:
  assumes b: "requests_left mb = Some (INBOX_DAYS + 1 + n)" and ids: "countdown_ids mb L A"
  shows "day_labels mb = Some (Inr (map (\<lambda>i. (i, Some (L i))) [0..<INBOX_DAYS + 1]),
      mb\<lparr>requests_left := Some n\<rparr>)"
proof -
  have "io_map (\<lambda>i. io_bind (get_label_id (x_name i)) (\<lambda>l. io_return (i, l))) [0..<INBOX_DAYS + 1] mb
      = Some (Inr (map (\<lambda>i. (i, find_label_id mb (x_name i))) [0..<INBOX_DAYS + 1]),
          mb\<lparr>requests_left := Some n\<rparr>)"
  proof (rule io_map_served[where mb = mb])
    fix x and m :: mailbox and k
    assume "requests_left m = Some (Suc k)" "all_labels m = all_labels mb"
    then show "io_bind (get_label_id (x_name x)) (\<lambda>l. io_return (x, l)) m
        = Some (Inr (x, find_label_id mb (x_name x)), m\<lparr>requests_left := Some k\<rparr>)"
      by (simp add: io_bind_def get_label_id_served io_return_def find_label_id_def)
  next
    show "requests_left mb = Some (length [0..<INBOX_DAYS + 1] + n)" using b by simp
  qed simp
  moreover have "map (\<lambda>i. (i, find_label_id mb (x_name i))) [0..<INBOX_DAYS + 1]
      = map (\<lambda>i. (i, Some (L i))) [0..<INBOX_DAYS + 1]"
    using ids unfolding countdown_ids_def by (intro map_cong) auto
  ultimately show ?thesis unfolding day_labels_def by (simp only:)
qed

lemma fetch_one_page:
  assumes b: "requests_left mb = Some (Suc n)" and small: "length (search mb q) \<le> PAGE_SIZE"
  shows "fetch_all_threads q mb = Some (Inr (search mb q), mb\<lparr>requests_left := Some n\<rparr>)"
proof -
  have p: "page_of (search mb q) PAGE_SIZE None
      = \<lparr>resp_threads = (if search mb q = [] then None else Some (search mb q)), nextPageToken = None\<rparr>"
    using small by (simp add: page_of_def Let_def)
  have "threads_list q PAGE_SIZE None mb
      = Some (Inr (page_of (search mb q) PAGE_SIZE None), mb\<lparr>requests_left := Some n\<rparr>)"
    by (simp add: threads_list_def execute_served[OF b])
  then show ?thesis
    unfolding fetch_all_threads_def
    by (subst fetch_loop.simps) (simp add: p Let_def)
qed

lemma valid_label_id_requests [simp]:
  "valid_label_id (mb\<lparr>requests_left := b\<rparr>) i = valid_label_id mb i"
  by (simp add: valid_label_id_def split: option.splits)

lemma threads_modify_served:
  "requests_left mb = Some (Suc n) \<Longrightarrow> t \<in> set (thread_ids mb) \<Longrightarrow>
   \<forall>i \<in> set (adds @ rems). valid_label_id mb i \<Longrightarrow>
   threads_modify t adds rems mb =
     Some (Inr (), mb\<lparr>requests_left := Some n,
        thread_labels := (thread_labels mb)(t := modified_labels adds rems (thread_labels mb t))\<rparr>)"
  by (simp add: threads_modify_def execute_served)

lemma threads_modify_exhausted:
  "requests_left mb = Some 0 \<Longrightarrow> threads_modify t adds rems mb = Some (Inl TransportError, mb)"
  by (simp add: threads_modify_def execute_exhausted)

lemma for_each_append:
  "for_each (xs @ ys) body m = io_bind (for_each xs body) (\<lambda>_. for_each ys body) m"
proof (induction xs arbitrary: m)
  case Nil
  show ?case by (simp add: io_bind_def io_return_def)
next
  case (Cons x xs)
  show ?case
    by (cases "body x m") (auto simp: io_bind_def Cons.IH split: sum.splits)
qed

text \<open>The two calls that archive a thread of bucket 0.\<close>

lemma archive_served:
  assumes b: "requests_left m = Some (Suc (Suc n))" and t: "t \<in> set (thread_ids m)"
    and v: "valid_label_id m (Some A)" "valid_label_id m (Some l0)"
  shows "io_bind (threads_modify t [Some A] [Some l0]) (\<lambda>_. threads_modify t [] [Some INBOX]) m
    = Some (Inr (), m\<lparr>requests_left := Some n,
        thread_labels := (thread_labels m)(t := insert A (thread_labels m t - {l0}) - {INBOX})\<rparr>)"
proof -
  let ?m1 = "m\<lparr>requests_left := Some (Suc n),
        thread_labels := (thread_labels m)(t := insert A (thread_labels m t - {l0}))\<rparr>"
  have 1: "threads_modify t [Some A] [Some l0] m = Some (Inr (), ?m1)"
    using b t v by (subst threads_modify_served) (auto simp: modified_labels_def)
  have 2: "threads_modify t [] [Some INBOX] ?m1
      = Some (Inr (), ?m1\<lparr>requests_left := Some n,
          thread_labels := (thread_labels ?m1)(t := thread_labels ?m1 t - {INBOX})\<rparr>)"
    using t by (subst threads_modify_served) (auto simp: modified_labels_def valid_label_id_def)
  show ?thesis using 1 2 by (simp add: io_bind_def)
qed

lemma archive_interrupted:
  assumes b: "requests_left m = Some (Suc 0)" and t: "t \<in> set (thread_ids m)"
    and v: "valid_label_id m (Some A)" "valid_label_id m (Some l0)"
  shows "io_bind (threads_modify t [Some A] [Some l0]) (\<lambda>_. threads_modify t [] [Some INBOX]) m
    = Some (Inl TransportError, m\<lparr>requests_left := Some 0,
        thread_labels := (thread_labels m)(t := insert A (thread_labels m t - {l0}))\<rparr>)"
proof -
  let ?m1 = "m\<lparr>requests_left := Some 0,
        thread_labels := (thread_labels m)(t := insert A (thread_labels m t - {l0}))\<rparr>"
  have 1: "threads_modify t [Some A] [Some l0] m = Some (Inr (), ?m1)"
    using b t v by (subst threads_modify_served) (auto simp: modified_labels_def)
  have 2: "threads_modify t [] [Some INBOX] ?m1 = Some (Inl TransportError, ?m1)"
    by (rule threads_modify_exhausted) simp
  show ?thesis using 1 2 by (simp add: io_bind_def)
qed

lemma for_each_archive_served:
  fixes A l0 :: lid
  defines "body \<equiv> (\<lambda>thread. io_bind (threads_modify thread [Some A] [Some l0])
                (\<lambda>_. threads_modify thread [] [Some INBOX]))"
  assumes v: "\<And>m::mailbox. all_labels m = R \<Longrightarrow> valid_label_id m (Some A) \<and> valid_label_id m (Some l0)"
  shows "requests_left m = Some (2 * length done + r) \<Longrightarrow> all_labels m = R \<Longrightarrow>
    set done \<subseteq> set (thread_ids m) \<Longrightarrow> t \<notin> set done \<Longrightarrow>
    \<exists>m1. for_each done body m = Some (Inr (), m1)
       \<and> requests_left m1 = Some r \<and> all_labels m1 = R \<and> thread_ids m1 = thread_ids m
       \<and> thread_labels m1 t = thread_labels m t"
proof (induction "done" arbitrary: m)
  case Nil
  then show ?case by (simp add: io_return_def)
next
  case (Cons u us)
  let ?m1 = "m\<lparr>requests_left := Some (2 * length us + r),
        thread_labels := (thread_labels m)(u := insert A (thread_labels m u - {l0}) - {INBOX})\<rparr>"
  have b: "requests_left m = Some (Suc (Suc (2 * length us + r)))" using Cons.prems(1) by simp
  have 1: "body u m = Some (Inr (), ?m1)"
    unfolding body_def using Cons.prems v[of m] by (intro archive_served[OF b]) auto
  from Cons.IH[of ?m1] Cons.prems obtain m2 where
    m2: "for_each us body ?m1 = Some (Inr (), m2)"
      "requests_left m2 = Some r" "all_labels m2 = R" "thread_ids m2 = thread_ids ?m1"
      "thread_labels m2 t = thread_labels ?m1 t"
    by auto
  from Cons.prems(4) have "t \<noteq> u" by auto
  with 1 m2 show ?case by (simp add: io_bind_def)
qed

lemma same_labels:
  assumes "all_labels m = all_labels mb"
  shows "registry_ok m = registry_ok mb" "countdown_ids m L A = countdown_ids mb L A"
    "find_label_id m n = find_label_id mb n"
  using assms by (simp_all add: registry_ok_def countdown_ids_def find_label_id_def)

text \<open>
  C9. Non-atomic archival at bucket 0. The archival of a bucket-0 thread is two
  requests: the first removes bucket 0 and adds the archived label, the second
  removes the inbox label. Let the search for bucket 0 list the threads \<open>done\<close>, then
  \<open>t\<close>, then \<open>rest\<close> (in one page), let \<open>t\<close> be in the inbox, and let the transport serve
  exactly the requests up to the first of the two for \<open>t\<close>. Then \<open>step_expiration\<close>
  ends with the transport's exception, and in the store it leaves \<open>t\<close> holds the
  archived label and no longer bucket 0 but is still in the inbox: its labels are those
  after the first request, nothing is undone.
\<close>

theorem archival_is_not_atomic:
  assumes reg: "registry_ok mb" and ids: "countdown_ids mb L A"
    and bucket0: "search mb [Has_label (x_name 0)] = done @ t # rest"
    and t: "t \<notin> set done" and small: "length (done @ t # rest) \<le> PAGE_SIZE"
    and budget: "requests_left mb = Some (INBOX_DAYS + 4 + 2 * length done)"
    and inbox: "INBOX \<in> thread_labels mb t"
  shows "\<exists>mb'. step_expiration mb = Some (Inl TransportError, mb')
     \<and> thread_labels mb' t = insert A (thread_labels mb t - {L 0})
     \<and> has_label_named mb' t ''auto-archived'' \<and> INBOX \<in> thread_labels mb' t
     \<and> \<not> has_label_named mb' t (x_name 0)"
proof -
  define body where "body = (\<lambda>thread. io_bind (threads_modify thread [Some A] [Some (L 0)])
                (\<lambda>_. threads_modify thread [] [Some INBOX]))"
  define labels where "labels = map (\<lambda>i. (i, Some (L i))) [0..<INBOX_DAYS + 1]"
  define later where "later = [1..<INBOX_DAYS + 1]"
  let ?ma = "mb\<lparr>requests_left := Some (3 + 2 * length done)\<rparr>"
  let ?mb = "mb\<lparr>requests_left := Some (2 + 2 * length done)\<rparr>"
  let ?mc = "mb\<lparr>requests_left := Some (2 * length done + 1)\<rparr>"
  have l0: "find_label_id mb (x_name 0) = Some (L 0)" by (rule countdown_ids_bucket[OF ids]) simp
  have la: "find_label_id mb ''auto-archived'' = Some A" by (rule countdown_ids_archived[OF ids])
  have v: "\<And>m::mailbox. all_labels m = all_labels mb \<Longrightarrow>
      valid_label_id m (Some A) \<and> valid_label_id m (Some (L 0))"
    using found_is_valid[OF l0] found_is_valid[OF la] by (simp add: valid_label_id_def)
  have tids: "set (done @ t # rest) \<subseteq> set (thread_ids mb)"
    using search_subset[of mb "[Has_label (x_name 0)]"] bucket0 by simp
  have 1: "day_labels mb = Some (Inr labels, ?ma)"
    unfolding labels_def using budget by (intro day_labels_served[OF _ ids]) simp
  have 2: "get_label_id ''auto-archived'' ?ma = Some (Inr (Some A), ?mb)"
    using get_label_id_served[of ?ma "2 + 2 * length done" "''auto-archived''"] la by simp
  have 3: "fetch_all_threads [Has_label (x_name 0)] ?mb = Some (Inr (done @ t # rest), ?mc)"
    using fetch_one_page[of ?mb "2 * length done + 1" "[Has_label (x_name 0)]"] small bucket0
    by simp
  from for_each_archive_served[of "all_labels mb" A "L 0" ?mc "done" 1 t, OF v] tids t
  obtain m1 where m1: "for_each done body ?mc = Some (Inr (), m1)"
    "requests_left m1 = Some 1" "all_labels m1 = all_labels mb" "thread_ids m1 = thread_ids mb"
    "thread_labels m1 t = thread_labels mb t"
    unfolding body_def by auto
  let ?m2 = "m1\<lparr>requests_left := Some 0,
        thread_labels := (thread_labels m1)(t := insert A (thread_labels m1 t - {L 0}))\<rparr>"
  have 4: "body t m1 = Some (Inl TransportError, ?m2)"
    unfolding body_def using m1 tids v[of m1] by (intro archive_interrupted) auto
  have 5: "for_each (done @ t # rest) body ?mc = Some (Inl TransportError, ?m2)"
    using m1(1) 4 by (simp add: for_each_append io_bind_def)
  have "0 \<in> set [0..<INBOX_DAYS + 1]" unfolding bucket_range by simp
  then have dg: "dict_get labels 0 = io_return (Some (L 0))"
    unfolding dict_get_def labels_def map_of_tabulate by (simp only: if_True option.case)
  have 6: "step_bucket labels (Some A) 0 ?mb = Some (Inl TransportError, ?m2)"
    unfolding step_bucket_def dg using 3 5
    by (simp add: io_bind_def[of "io_return _"] io_bind_def[of "fetch_all_threads _"]
        io_return_def body_def)
  have up: "[0..<INBOX_DAYS + 1] = 0 # later"
    unfolding later_def by (simp add: upt_rec[of 0])
  have "for_each (0 # later) (step_bucket labels (Some A)) ?mb = Some (Inl TransportError, ?m2)"
    using 6 by (simp add: io_bind_def)
  then have 7: "for_each [0..<INBOX_DAYS + 1] (step_bucket labels (Some A)) ?mb
      = Some (Inl TransportError, ?m2)"
    by (simp only: up)
  have run: "step_expiration mb = Some (Inl TransportError, ?m2)"
    unfolding step_expiration_def
    by (simp only: io_bind_def 1 2 7 option.case prod.case sum.case)
  have tl: "thread_labels ?m2 t = insert A (thread_labels mb t - {L 0})"
    by (simp add: m1(5))
  have al: "all_labels ?m2 = all_labels mb" by (simp add: m1(3))
  note same = same_labels[OF al]
  have reg2: "registry_ok ?m2" using reg same(1) by simp
  have "find_label_id ?m2 ''auto-archived'' = Some A" by (simp only: same(3) la)
  moreover have "A \<in> thread_labels ?m2 t" unfolding tl by simp
  ultimately have a: "has_label_named ?m2 t ''auto-archived''" by (rule has_label_named_found)
  have n0: "L 0 \<noteq> A" "L 0 \<noteq> INBOX"
    using bucket_ids_other(1,2)[OF reg ids, of 0] by simp_all
  have b: "INBOX \<in> thread_labels ?m2 t" using inbox n0 unfolding tl by simp
  have "L 0 \<notin> thread_labels ?m2 t" using n0 unfolding tl by simp
  moreover have "find_label_id ?m2 (x_name 0) = Some (L 0)" by (simp only: same(3) l0)
  ultimately have c: "\<not> has_label_named ?m2 t (x_name 0)"
    using has_label_named_iff[OF reg2, of "x_name 0" "L 0" t] by simp
  from run tl a b c show ?thesis by blast
qed

theorem archival_is_not_atomic_witness:
  "registry_ok failing_store \<and> countdown_ids failing_store UserLabel (UserLabel 8)
   \<and> search failing_store [Has_label (x_name 0)] = [] @ 2 # []
   \<and> 2 \<notin> set ([]::nat list) \<and> length ([] @ (2::nat) # []) \<le> PAGE_SIZE
   \<and> requests_left failing_store = Some (INBOX_DAYS + 4 + 2 * length ([]::nat list))
   \<and> INBOX \<in> thread_labels failing_store 2
   \<and> (\<exists>mb'. step_expiration failing_store = Some (Inl TransportError, mb')
     \<and> thread_labels mb' 2 = insert (UserLabel 8) (thread_labels failing_store 2 - {UserLabel 0})
     \<and> has_label_named mb' 2 ''auto-archived'' \<and> INBOX \<in> thread_labels mb' 2
     \<and> \<not> has_label_named mb' 2 (x_name 0))"
proof -
  have al: "all_labels failing_store = all_labels countdown_store"
    by (simp add: failing_store_def)
  have h1: "registry_ok failing_store"
    using countdown_store_ok(2) same_labels(1)[OF al] by simp
  have h2: "countdown_ids failing_store UserLabel (UserLabel 8)"
    using countdown_store_ids same_labels(2)[OF al] by simp
  have h3: "search failing_store [Has_label (x_name 0)] = [] @ 2 # []"
    by (simp add: failing_store_def search_def has_label_named_def countdown_store_def
        countdown_labels_def x_name_def str_int_def str_nat.simps digit_char_def)
  have h4: "2 \<notin> set ([]::nat list)" by simp
  have h5: "length ([] @ (2::nat) # []) \<le> PAGE_SIZE" by (simp add: PAGE_SIZE_def)
  have h6: "requests_left failing_store = Some (INBOX_DAYS + 4 + 2 * length ([]::nat list))"
    by (simp add: failing_store_def INBOX_DAYS_def)
  have h7: "INBOX \<in> thread_labels failing_store 2"
    by (simp add: failing_store_def countdown_store_def)
  from archival_is_not_atomic[OF h1 h2 h3 h4 h5 h6 h7] h1 h2 h3 h4 h5 h6 h7
  show ?thesis by (intro conjI)
qed

end
